theory Spec2Isabelle
  imports Main "HOL-Library.Word"
begin

unbundle bit_operations_syntax

section \<open>The extraction engine of \<^verbatim>\<open>src/unzip.ts\<close>\<close>

text \<open>
  The class \<^verbatim>\<open>Unzip\<close> is event driven: \<^verbatim>\<open>extract\<close> is an async function whose body is
  cut at every \<^verbatim>\<open>await\<close>, and the rest of the work happens in listeners of the archive
  reader, of the entry's read stream and of the destination file stream. The embedding is
  a state machine. The state holds the fields of \<^verbatim>\<open>Unzip\<close>, the locals that the closures
  of \<^verbatim>\<open>extract\<close> capture, the promise that \<^verbatim>\<open>extract\<close> returns, one record per entry
  handler in flight, and a log of every call the engine makes to its collaborators.
  Each event of the environment runs one listener or one continuation from its
  \<^verbatim>\<open>await\<close> to the next, as the run-to-completion semantics of JavaScript does; the
  continuation of an \<^verbatim>\<open>await\<close> runs in the step of the event that settles the awaited
  promise. A run is one call of \<^verbatim>\<open>extract\<close> on a new instance of \<^verbatim>\<open>Unzip\<close>.
\<close>

subsection \<open>Data\<close>

type_synonym u32 = "32 word"

text \<open>\<^verbatim>\<open>yauzl.Entry\<close>: the raw name (taken as already decoded from UTF-8) and the external attributes.\<close>

record entry =
  fileName :: string
  externalFileAttributes :: u32

text \<open>\<^verbatim>\<open>IExtractOptions\<close>; every field is optional. The callback is user code: the record
  says only whether one is given, and what it does at one call is the \<open>callback\<close> below.\<close>

record options =
  overwrite :: "bool option"
  symlinkAsFileOnWindows :: "bool option"
  onEntry :: bool

text \<open>What a call of the user's \<^verbatim>\<open>onEntry\<close> does to the engine: it may call
  \<^verbatim>\<open>event.preventDefault()\<close>, it may call \<^verbatim>\<open>cancel()\<close> on the engine, it may throw.\<close>

record callback =
  prevents :: bool
  cancels :: bool
  throws :: bool

datatype platform = Win32 | Posix

record request =
  opts :: "options option"
  platform :: platform
  zipPath :: string
  targetFolder :: string

text \<open>\<^verbatim>\<open>canceled()\<close> builds the error named Canceled; every other error is a \<open>Failure\<close>.\<close>

datatype err = Canceled | Failure nat

datatype outcome = Pending | Resolved | Rejected err

text \<open>Paths stay symbolic: \<^verbatim>\<open>path.join\<close> and \<^verbatim>\<open>path.dirname\<close> belong to the platform.\<close>

datatype path = Path string | Join string string | Dirname path

text \<open>The calls the engine makes, in the order it makes them.\<close>

datatype effect =
    Rimraf string
  | EnsureFolder path
  | OpenZip string
  | ReadEntry
  | CloseZip
  | OnEntry string nat
  | OpenReadStream nat
  | CreateWriteStream nat path int
  | Unpipe nat
  | Destroy nat err
  | Symlink string path

text \<open>Where the body of \<^verbatim>\<open>extract\<close> stands before its promise exists.\<close>

datatype stage = Removing | EnsuringTarget | Opening | Running | Stopped

text \<open>Where the async listener of one entry stands: the \<^verbatim>\<open>await\<close> it is suspended at.\<close>

datatype phase =
    EnsuringDir
  | EnsuringParent
  | OpeningStream
  | Copying
  | ReadingLink string
  | Linking
  | Finished

datatype rstream = NoStream | Open | Ended | Broken

record task =
  entryOf :: entry
  nameOf :: string
  phase :: phase
  readStream :: rstream
  fileStream :: bool

record engine =
  isCanceled :: bool
  zipFile :: bool
  cancelCallback :: "nat option"
  extractedEntriesCount :: nat
  total_entries :: nat
  entryName :: string
  isPrevented :: bool
  outcome :: outcome
  stage :: stage
  errorListener :: bool
  closeListener :: bool
  entryListener :: bool
  tasks :: "task list"
  unhandled :: nat
  pending :: nat
  remaining :: "entry list"
  effects :: "effect list"

subsection \<open>Permission bits\<close>

text \<open>
  \<^verbatim>\<open>entry.externalFileAttributes >> 16 || 33188\<close>: the operator \<^verbatim>\<open>>>\<close> reads its operand as
  a signed 32-bit integer and shifts arithmetically; \<^verbatim>\<open>||\<close> replaces 0. The masks are
  applied with \<^verbatim>\<open>&\<close> and the pieces are added as numbers.
\<close>

definition modeFromEntry :: "entry \<Rightarrow> int" where
  "modeFromEntry en =
     (let shifted = sint (signed_drop_bit 16 (externalFileAttributes en));
          attr = (if shifted = 0 then 33188 else shifted)
      in foldl (+) (attr AND 61440) (map (\<lambda>mask. attr AND mask) [448, 56, 7]))"

definition isSymlinkMode :: "int \<Rightarrow> bool" where
  "isSymlinkMode mode \<longleftrightarrow> (mode AND 61440) = 40960"

definition isOverwrite :: "request \<Rightarrow> bool" where
  "isOverwrite rq =
     (case opts rq of None \<Rightarrow> False | Some ops \<Rightarrow> overwrite ops = Some True)"

definition symlinkToFile :: "request \<Rightarrow> bool" where
  "symlinkToFile rq =
     (if platform rq = Win32
      then (case opts rq of
              None \<Rightarrow> True
            | Some ops \<Rightarrow> (if symlinkAsFileOnWindows ops = Some False then False else True))
      else False)"

subsection \<open>Names\<close>

text \<open>\<^verbatim>\<open>rawName.replace(/\\/g, "/")\<close> and the test \<^verbatim>\<open>/\/$/\<close>.\<close>

definition decodeName :: "string \<Rightarrow> string" where
  "decodeName raw = map (\<lambda>c. if c = CHR 0x5C then CHR ''/'' else c) raw"

definition isDirectoryName :: "string \<Rightarrow> bool" where
  "isDirectoryName n \<longleftrightarrow> n \<noteq> [] \<and> last n = CHR ''/''"

subsection \<open>Chunks as text\<close>

text \<open>
  A chunk of the read stream is a \<^verbatim>\<open>Buffer\<close>, a list of bytes; \<^verbatim>\<open>chunk instanceof String\<close> is
  false for it, so the listener appends \<^verbatim>\<open>chunk.toString()\<close>. That call decodes the bytes of
  this one chunk as UTF-8 and puts U+FFFD in the place of every ill-formed sequence: a
  lead byte without its continuation bytes, a continuation byte without a lead byte, a
  byte that starts nothing. Text is kept here as its UTF-8 bytes, so a well-formed
  sequence stays as it is and an ill-formed one becomes the three bytes of U+FFFD.
\<close>

definition replacement :: string where
  "replacement = [CHR 0xEF, CHR 0xBF, CHR 0xBD]"

definition byteIn :: "nat \<Rightarrow> nat \<Rightarrow> char \<Rightarrow> bool" where
  "byteIn lo hi c \<longleftrightarrow> lo \<le> of_char c \<and> (of_char c :: nat) \<le> hi"

definition secondByte :: "char \<Rightarrow> char \<Rightarrow> bool" where
  "secondByte b c =
     (if b = CHR 0xE0 then byteIn 0xA0 0xBF c
      else if b = CHR 0xED then byteIn 0x80 0x9F c
      else if b = CHR 0xF0 then byteIn 0x90 0xBF c
      else if b = CHR 0xF4 then byteIn 0x80 0x8F c
      else byteIn 0x80 0xBF c)"

fun bufferToString :: "string \<Rightarrow> string" where
  "bufferToString [] = []"
| "bufferToString (b # bs) =
     (if byteIn 0 0x7F b then b # bufferToString bs
      else if byteIn 0xC2 0xDF b then
        (case bs of
           [] \<Rightarrow> replacement
         | c # r \<Rightarrow>
             if secondByte b c then b # c # bufferToString r
             else replacement @ bufferToString bs)
      else if byteIn 0xE0 0xEF b then
        (case bs of
           [] \<Rightarrow> replacement
         | c # r \<Rightarrow>
             if secondByte b c then
               (case r of
                  [] \<Rightarrow> replacement
                | d # r' \<Rightarrow>
                    if byteIn 0x80 0xBF d then b # c # d # bufferToString r'
                    else replacement @ bufferToString r)
             else replacement @ bufferToString bs)
      else if byteIn 0xF0 0xF4 b then
        (case bs of
           [] \<Rightarrow> replacement
         | c # r \<Rightarrow>
             if secondByte b c then
               (case r of
                  [] \<Rightarrow> replacement
                | d # r' \<Rightarrow>
                    if byteIn 0x80 0xBF d then
                      (case r' of
                         [] \<Rightarrow> replacement
                       | e # r'' \<Rightarrow>
                           if byteIn 0x80 0xBF e then b # c # d # e # bufferToString r''
                           else replacement @ bufferToString r')
                    else replacement @ bufferToString r)
             else replacement @ bufferToString bs)
      else replacement @ bufferToString bs)"

subsection \<open>Small operations of the engine\<close>

definition emit :: "effect \<Rightarrow> engine \<Rightarrow> engine" where
  "emit x s = s\<lparr>effects := effects s @ [x]\<rparr>"

text \<open>A promise settles once: later calls of its \<^verbatim>\<open>c\<close> and \<^verbatim>\<open>e\<close> do nothing.\<close>

definition settle :: "outcome \<Rightarrow> engine \<Rightarrow> engine" where
  "settle r s = (if outcome s = Pending then s\<lparr>outcome := r\<rparr> else s)"

text \<open>Modelled from the spec: the Archive Reader is pull based; each \<^verbatim>\<open>readEntry()\<close> asks
  for one entry, which the reader answers with one entry event, in archive order.\<close>

definition readEntry :: "engine \<Rightarrow> engine" where
  "readEntry s = emit ReadEntry (s\<lparr>pending := Suc (pending s)\<rparr>)"

definition closeZip :: "engine \<Rightarrow> engine" where
  "closeZip s = (if zipFile s then (emit CloseZip s)\<lparr>zipFile := False\<rparr> else s)"

text \<open>The closure that \<^verbatim>\<open>writeEntryToFile\<close> stores in \<^verbatim>\<open>cancelCallback\<close> for entry \<open>i\<close>.\<close>

definition cancelCallbackBody :: "nat \<Rightarrow> engine \<Rightarrow> engine" where
  "cancelCallbackBody i s =
     (let s1 = s\<lparr>cancelCallback := None\<rparr>
      in if i < length (tasks s1) \<and> fileStream (tasks s1 ! i)
         then emit (Destroy i Canceled) (emit (Unpipe i) s1)
         else s1)"

definition cancel :: "engine \<Rightarrow> engine" where
  "cancel s =
     (let s1 = s\<lparr>isCanceled := True\<rparr>;
          s2 = (case cancelCallback s1 of None \<Rightarrow> s1 | Some i \<Rightarrow> cancelCallbackBody i s1)
      in closeZip s2)"

text \<open>The end of the \<^verbatim>\<open>try\<close> block of the entry listener, and its \<^verbatim>\<open>catch\<close>.\<close>

definition counted :: "engine \<Rightarrow> engine" where
  "counted s =
     (let s1 = s\<lparr>extractedEntriesCount := Suc (extractedEntriesCount s)\<rparr>
      in if extractedEntriesCount s1 = total_entries s1 then settle Resolved s1 else s1)"

definition caught :: "err \<Rightarrow> engine \<Rightarrow> engine" where
  "caught e s =
     (if isCanceled s then settle (Rejected Canceled) s
      else closeZip (settle (Rejected e) s))"

definition setTask :: "nat \<Rightarrow> (task \<Rightarrow> task) \<Rightarrow> engine \<Rightarrow> engine" where
  "setTask i f s = s\<lparr>tasks := (tasks s)[i := f (tasks s ! i)]\<rparr>"

definition setPhase :: "nat \<Rightarrow> phase \<Rightarrow> engine \<Rightarrow> engine" where
  "setPhase i p s = setTask i (\<lambda>t. t\<lparr>phase := p\<rparr>) s"

definition filePath :: "request \<Rightarrow> task \<Rightarrow> path" where
  "filePath rq t = Join (targetFolder rq) (nameOf t)"

subsection \<open>\<^verbatim>\<open>extract\<close> up to its promise\<close>

definition fresh :: engine where
  "fresh = \<lparr>isCanceled = False, zipFile = False, cancelCallback = None,
     extractedEntriesCount = 0, total_entries = 0, entryName = [], isPrevented = False,
     outcome = Pending, stage = Stopped, errorListener = False, closeListener = False,
     entryListener = False, tasks = [], unhandled = 0, pending = 0, remaining = [],
     effects = []\<rparr>"

definition afterRemove :: "request \<Rightarrow> engine \<Rightarrow> engine" where
  "afterRemove rq s =
     (if isCanceled s then (settle (Rejected Canceled) s)\<lparr>stage := Stopped\<rparr>
      else (emit (EnsureFolder (Path (targetFolder rq))) s)\<lparr>stage := EnsuringTarget\<rparr>)"

definition extract_start :: "request \<Rightarrow> engine" where
  "extract_start rq =
     (let s = fresh\<lparr>isCanceled := False\<rparr>
      in if isOverwrite rq then (emit (Rimraf (targetFolder rq)) s)\<lparr>stage := Removing\<rparr>
         else afterRemove rq s)"

definition onZipOpened :: "entry list \<Rightarrow> engine \<Rightarrow> engine" where
  "onZipOpened es s =
     (let s1 = readEntry (s\<lparr>zipFile := True, remaining := es\<rparr>);
          s2 = s1\<lparr>total_entries := length es, errorListener := True, closeListener := True,
                  stage := Running\<rparr>
      in if isCanceled s2 then closeZip s2
         else s2\<lparr>isPrevented := False, entryListener := True\<rparr>)"

subsection \<open>The entry listener\<close>

definition hasOnEntry :: "request \<Rightarrow> bool" where
  "hasOnEntry rq = (case opts rq of None \<Rightarrow> False | Some ops \<Rightarrow> onEntry ops)"

definition onEntryCallback :: "request \<Rightarrow> callback \<Rightarrow> engine \<Rightarrow> engine \<times> bool" where
  "onEntryCallback rq u s =
     (if hasOnEntry rq
      then (let s1 = emit (OnEntry (entryName s) (total_entries s)) s;
                s2 = (if prevents u then s1\<lparr>isPrevented := True\<rparr> else s1);
                s3 = (if cancels u then cancel s2 else s2)
            in (s3, throws u))
      else (s, False))"

definition newTask :: "entry \<Rightarrow> string \<Rightarrow> phase \<Rightarrow> engine \<Rightarrow> engine" where
  "newTask en n p s =
     s\<lparr>tasks := tasks s @
        [\<lparr>entryOf = en, nameOf = n, phase = p, readStream = NoStream, fileStream = False\<rparr>]\<rparr>"

definition extractEntry :: "request \<Rightarrow> entry \<Rightarrow> string \<Rightarrow> engine \<Rightarrow> engine" where
  "extractEntry rq en n s =
     emit (EnsureFolder (Dirname (Join (targetFolder rq) n))) (newTask en n EnsuringParent s)"

definition handleEntry :: "request \<Rightarrow> entry \<Rightarrow> string \<Rightarrow> engine \<Rightarrow> engine" where
  "handleEntry rq en n s =
     (if isDirectoryName n
      then emit (EnsureFolder (Join (targetFolder rq) n)) (newTask en n EnsuringDir s)
      else extractEntry rq en n s)"

definition onEntryEvent :: "request \<Rightarrow> entry \<Rightarrow> callback \<Rightarrow> engine \<Rightarrow> engine" where
  "onEntryEvent rq en u s =
     (let n = decodeName (fileName en);
          s1 = s\<lparr>entryName := n\<rparr>;
          (s2, threw) = onEntryCallback rq u s1
      in if threw then (newTask en n Finished s2)\<lparr>unhandled := Suc (unhandled s2)\<rparr>
         else if isPrevented s2
         then counted (readEntry (newTask en n Finished (s2\<lparr>isPrevented := False\<rparr>)))
         else handleEntry rq en n s2)"

subsection \<open>Continuations of one entry\<close>

definition finish :: "nat \<Rightarrow> engine \<Rightarrow> engine" where
  "finish i s = setPhase i Finished s"

definition writeEntryToFile :: "request \<Rightarrow> nat \<Rightarrow> engine \<Rightarrow> engine" where
  "writeEntryToFile rq i s =
     (let t = tasks s ! i;
          s1 = s\<lparr>cancelCallback := Some i\<rparr>;
          mode = modeFromEntry (entryOf t)
      in if isSymlinkMode mode \<and> \<not> symlinkToFile rq
         then setPhase i (ReadingLink []) s1
         else emit (CreateWriteStream i (filePath rq t) mode)
                (setTask i (\<lambda>t. t\<lparr>phase := Copying, fileStream := True\<rparr>) s1))"

definition onFolderEnsured :: "nat \<Rightarrow> err option \<Rightarrow> engine \<Rightarrow> engine option" where
  "onFolderEnsured i r s =
     (case phase (tasks s ! i) of
        EnsuringDir \<Rightarrow>
          (case r of
             None \<Rightarrow> Some (counted (readEntry (finish i s)))
           | Some e \<Rightarrow> Some (caught e (finish i s)))
      | EnsuringParent \<Rightarrow>
          (case r of
             None \<Rightarrow> Some (emit (OpenReadStream i) (setPhase i OpeningStream s))
           | Some e \<Rightarrow> Some (caught e (finish i s)))
      | _ \<Rightarrow> None)"

definition onStreamOpened :: "request \<Rightarrow> nat \<Rightarrow> err option \<Rightarrow> engine \<Rightarrow> engine option" where
  "onStreamOpened rq i r s =
     (if phase (tasks s ! i) = OpeningStream
      then (case r of
              None \<Rightarrow> Some (writeEntryToFile rq i (setTask i (\<lambda>t. t\<lparr>readStream := Open\<rparr>) s))
            | Some e \<Rightarrow> Some (caught e (finish i s)))
      else None)"

definition onReadData :: "nat \<Rightarrow> string \<Rightarrow> engine \<Rightarrow> engine option" where
  "onReadData i chunk s =
     (if readStream (tasks s ! i) = Open
      then (case phase (tasks s ! i) of
              ReadingLink acc \<Rightarrow>
                Some (setPhase i (ReadingLink (acc @ bufferToString chunk)) s)
            | _ \<Rightarrow> Some s)
      else None)"

definition onReadEnd :: "request \<Rightarrow> nat \<Rightarrow> engine \<Rightarrow> engine option" where
  "onReadEnd rq i s =
     (if readStream (tasks s ! i) = Open
      then (let s1 = readEntry (setTask i (\<lambda>t. t\<lparr>readStream := Ended\<rparr>) s)
            in case phase (tasks s ! i) of
                 ReadingLink acc \<Rightarrow>
                   Some (emit (Symlink acc (filePath rq (tasks s ! i))) (setPhase i Linking s1))
               | _ \<Rightarrow> Some s1)
      else None)"

definition onReadError :: "nat \<Rightarrow> err \<Rightarrow> engine \<Rightarrow> engine option" where
  "onReadError i e s =
     (if readStream (tasks s ! i) = Open
      then (let s1 = setTask i (\<lambda>t. t\<lparr>readStream := Broken\<rparr>) s
            in case phase (tasks s ! i) of
                 Copying \<Rightarrow> Some (caught e (finish i s1))
               | ReadingLink acc \<Rightarrow> Some (caught e (finish i s1))
               | _ \<Rightarrow> Some s1)
      else None)"

definition onFileClose :: "nat \<Rightarrow> engine \<Rightarrow> engine option" where
  "onFileClose i s =
     (if phase (tasks s ! i) = Copying then Some (counted (finish i s))
      else if fileStream (tasks s ! i) then Some s
      else None)"

definition onFileError :: "nat \<Rightarrow> err \<Rightarrow> engine \<Rightarrow> engine option" where
  "onFileError i e s =
     (if phase (tasks s ! i) = Copying then Some (caught e (finish i s))
      else if fileStream (tasks s ! i) then Some s
      else None)"

definition onSymlinkDone :: "nat \<Rightarrow> err option \<Rightarrow> engine \<Rightarrow> engine option" where
  "onSymlinkDone i r s =
     (if phase (tasks s ! i) = Linking
      then (case r of
              None \<Rightarrow> Some (counted (finish i s))
            | Some e \<Rightarrow> Some (caught e (finish i s)))
      else None)"

subsection \<open>Listeners of the archive reader\<close>

definition onZipError :: "err \<Rightarrow> engine \<Rightarrow> engine" where
  "onZipError e s =
     (let s1 = s\<lparr>errorListener := False\<rparr>
      in if isCanceled s1 then settle (Rejected Canceled) s1 else settle (Rejected e) s1)"

definition onZipClose :: "engine \<Rightarrow> engine" where
  "onZipClose s =
     (let s1 = s\<lparr>closeListener := False\<rparr>
      in if isCanceled s1 then settle (Rejected Canceled) s1
         else if total_entries s1 = 0 then settle Resolved s1
         else s1)"

subsection \<open>Events\<close>

text \<open>
  Modelled from the spec: what the collaborators may do. The filesystem layer and the
  streams answer each request once, with success or an error. The Archive Reader emits
  an entry only in answer to a pull and in archive order, and emits its error and its
  close signal at most once each. \<^verbatim>\<open>cancel()\<close> may be called at any moment.
\<close>

datatype event =
    Cancel
  | RimrafDone "err option"
  | TargetEnsured "err option"
  | ZipOpened "err + entry list"
  | ZipEntry callback
  | ZipError err
  | ZipClose
  | FolderEnsured nat "err option"
  | StreamOpened nat "err option"
  | ReadData nat string
  | ReadEnd nat
  | ReadError nat err
  | FileClose nat
  | FileError nat err
  | SymlinkDone nat "err option"

definition onTask :: "nat \<Rightarrow> engine \<Rightarrow> engine option \<Rightarrow> engine option" where
  "onTask i s r = (if stage s = Running \<and> i < length (tasks s) then r else None)"

fun step :: "request \<Rightarrow> engine \<Rightarrow> event \<Rightarrow> engine option" where
  "step rq s Cancel = Some (cancel s)"
| "step rq s (RimrafDone r) =
     (if stage s = Removing
      then (case r of
              None \<Rightarrow> Some (afterRemove rq s)
            | Some e \<Rightarrow> Some ((settle (Rejected e) s)\<lparr>stage := Stopped\<rparr>))
      else None)"
| "step rq s (TargetEnsured r) =
     (if stage s = EnsuringTarget
      then (case r of
              None \<Rightarrow> Some ((emit (OpenZip (zipPath rq)) s)\<lparr>stage := Opening\<rparr>)
            | Some e \<Rightarrow> Some ((settle (Rejected e) s)\<lparr>stage := Stopped\<rparr>))
      else None)"
| "step rq s (ZipOpened r) =
     (if stage s = Opening
      then (case r of
              Inr es \<Rightarrow> Some (onZipOpened es s)
            | Inl e \<Rightarrow> Some ((settle (Rejected e) s)\<lparr>stage := Stopped\<rparr>))
      else None)"
| "step rq s (ZipEntry u) =
     (if stage s = Running \<and> 0 < pending s \<and> remaining s \<noteq> []
      then (let s1 = s\<lparr>pending := pending s - 1, remaining := tl (remaining s)\<rparr>
            in if entryListener s then Some (onEntryEvent rq (hd (remaining s)) u s1)
               else Some s1)
      else None)"
| "step rq s (ZipError e) =
     (if stage s = Running \<and> errorListener s then Some (onZipError e s) else None)"
| "step rq s ZipClose =
     (if stage s = Running \<and> closeListener s then Some (onZipClose s) else None)"
| "step rq s (FolderEnsured i r) = onTask i s (onFolderEnsured i r s)"
| "step rq s (StreamOpened i r) = onTask i s (onStreamOpened rq i r s)"
| "step rq s (ReadData i chunk) = onTask i s (onReadData i chunk s)"
| "step rq s (ReadEnd i) = onTask i s (onReadEnd rq i s)"
| "step rq s (ReadError i e) = onTask i s (onReadError i e s)"
| "step rq s (FileClose i) = onTask i s (onFileClose i s)"
| "step rq s (FileError i e) = onTask i s (onFileError i e s)"
| "step rq s (SymlinkDone i r) = onTask i s (onSymlinkDone i r s)"

fun run :: "request \<Rightarrow> engine \<Rightarrow> event list \<Rightarrow> engine option" where
  "run rq s [] = Some s"
| "run rq s (ev # evs) = (case step rq s ev of None \<Rightarrow> None | Some s' \<Rightarrow> run rq s' evs)"

section \<open>Observations and invariants\<close>

subsection \<open>The right to pull\<close>

text \<open>
  A task holds the right to pull the next entry while it will still call \<^verbatim>\<open>readEntry()\<close>:
  a directory entry until its folder is ensured, a file entry until its read stream ends.
\<close>

definition holds :: "task \<Rightarrow> bool" where
  "holds t \<longleftrightarrow> phase t = EnsuringDir \<or> phase t = EnsuringParent \<or> phase t = OpeningStream
     \<or> readStream t = Open"

definition holders :: "task list \<Rightarrow> nat" where
  "holders ts = length (filter holds ts)"

definition openStreams :: "task list \<Rightarrow> nat" where
  "openStreams ts = length (filter (\<lambda>t. readStream t = Open) ts)"

definition task_ok :: "task \<Rightarrow> bool" where
  "task_ok t \<longleftrightarrow>
     (phase t = EnsuringDir \<or> phase t = EnsuringParent \<or> phase t = OpeningStream
        \<longrightarrow> readStream t = NoStream)
     \<and> (phase t = Linking \<longrightarrow> readStream t = Ended)"

definition token_inv :: "engine \<Rightarrow> bool" where
  "token_inv s \<longleftrightarrow>
     pending s + holders (tasks s) \<le> 1
     \<and> (isPrevented s \<longrightarrow> pending s + holders (tasks s) = 0)
     \<and> list_all task_ok (tasks s)
     \<and> (stage s \<noteq> Running \<longrightarrow> pending s = 0 \<and> tasks s = [] \<and> \<not> isPrevented s)"

subsection \<open>The log\<close>

definition cancelEffects :: "engine \<Rightarrow> effect list" where
  "cancelEffects s =
     (case cancelCallback s of
        None \<Rightarrow> []
      | Some i \<Rightarrow> (if i < length (tasks s) \<and> fileStream (tasks s ! i)
                   then [Unpipe i, Destroy i Canceled] else []))
     @ (if zipFile s then [CloseZip] else [])"

definition pulls :: "effect list \<Rightarrow> nat" where
  "pulls xs = length (filter (\<lambda>x. x = ReadEntry) xs)"

text \<open>The events at which the engine may ask the reader for the next entry.\<close>

fun pullPoint :: "engine \<Rightarrow> event \<Rightarrow> bool" where
  "pullPoint s (ZipOpened r) = (case r of Inl e \<Rightarrow> False | Inr es \<Rightarrow> True)"
| "pullPoint s (ZipEntry u) = (prevents u \<and> \<not> throws u)"
| "pullPoint s (FolderEnsured i r) = (r = None \<and> phase (tasks s ! i) = EnsuringDir)"
| "pullPoint s (ReadEnd i) = (readStream (tasks s ! i) = Open)"
| "pullPoint s ev = False"

subsection \<open>A sample archive\<close>

definition sample :: request where
  "sample = \<lparr>opts = Some \<lparr>overwrite = None, symlinkAsFileOnWindows = None, onEntry = True\<rparr>,
     platform = Posix, zipPath = ''a.zip'', targetFolder = ''out''\<rparr>"

definition quiet :: callback where
  "quiet = \<lparr>prevents = False, cancels = False, throws = False\<rparr>"

definition docs :: entry where
  "docs = \<lparr>fileName = ''docs/'', externalFileAttributes = 0\<rparr>"

definition readme :: entry where
  "readme = \<lparr>fileName = ''docs/a.txt'', externalFileAttributes = 0x81A40000\<rparr>"

definition shortcut :: entry where
  "shortcut = \<lparr>fileName = ''docs/l'', externalFileAttributes = 0xA1FF0000\<rparr>"

subsection \<open>Counting\<close>

definition finished :: "task list \<Rightarrow> nat" where
  "finished ts = length (filter (\<lambda>t. phase t = Finished) ts)"

text \<open>The calls that put something on disk or open a stream of the archive.\<close>

fun materializes :: "effect \<Rightarrow> bool" where
  "materializes (EnsureFolder p) = True"
| "materializes (OpenReadStream i) = True"
| "materializes (CreateWriteStream i p m) = True"
| "materializes (Symlink l p) = True"
| "materializes x = False"




definition thrower :: callback where
  "thrower = \<lparr>prevents = False, cancels = False, throws = True\<rparr>"

subsection \<open>Cancellation\<close>

text \<open>Once the promise of \<^verbatim>\<open>extract\<close> exists and the flag is set, the only rejection is Canceled.\<close>

text \<open>
  The events that end in an error path of the engine: the error signal and the close
  signal of the reader, and every failure that the \<^verbatim>\<open>catch\<close> of the entry listener receives
  (a folder that cannot be ensured, a read stream that cannot be opened, an error of the
  read stream or of the file stream while the listener waits for the write, a symbolic
  link that cannot be created).
\<close>

fun errorPath :: "engine \<Rightarrow> event \<Rightarrow> bool" where
  "errorPath s (ZipError e) = True"
| "errorPath s ZipClose = True"
| "errorPath s (FolderEnsured i r) = (r \<noteq> None)"
| "errorPath s (StreamOpened i r) = (r \<noteq> None)"
| "errorPath s (ReadError i e) =
     (case phase (tasks s ! i) of Copying \<Rightarrow> True | ReadingLink l \<Rightarrow> True | _ \<Rightarrow> False)"
| "errorPath s (FileError i e) = (phase (tasks s ! i) = Copying)"
| "errorPath s (SymlinkDone i r) = (r \<noteq> None)"
| "errorPath s ev = False"

definition masked :: "engine \<Rightarrow> bool" where
  "masked s \<longleftrightarrow>
     isCanceled s \<and> stage s = Running \<and> (\<forall>e. outcome s = Rejected e \<longrightarrow> e = Canceled)"

subsection \<open>Before the archive is open\<close>

definition idle :: "engine \<Rightarrow> bool" where
  "idle s \<longleftrightarrow>
     tasks s = [] \<and> cancelCallback s = None \<and> \<not> zipFile s \<and> pending s = 0
     \<and> remaining s = [] \<and> outcome s = Pending
     \<and> \<not> errorListener s \<and> \<not> closeListener s \<and> \<not> entryListener s
     \<and> filter (\<lambda>x. case x of OnEntry n k \<Rightarrow> True | _ \<Rightarrow> False) (effects s) = []"

definition before_open :: "engine \<Rightarrow> bool" where
  "before_open s \<longleftrightarrow>
     (stage s = Removing \<or> stage s = EnsuringTarget \<or> stage s = Opening \<longrightarrow> idle s)"

text \<open>The archive was closed as soon as it was opened, and no entry listener exists.\<close>

definition closedOff :: "effect list \<Rightarrow> engine \<Rightarrow> bool" where
  "closedOff log s \<longleftrightarrow>
     stage s = Running \<and> isCanceled s \<and> \<not> entryListener s \<and> tasks s = []
     \<and> \<not> zipFile s \<and> cancelCallback s = None \<and> effects s = log
     \<and> (outcome s = Pending \<or> outcome s = Rejected Canceled)"

text \<open>An archive without entries, and nobody has cancelled.\<close>

definition emptyRun :: "engine \<Rightarrow> bool" where
  "emptyRun s \<longleftrightarrow>
     stage s = Running \<and> total_entries s = 0 \<and> tasks s = [] \<and> remaining s = []
     \<and> filter (\<lambda>x. case x of OnEntry n k \<Rightarrow> True | _ \<Rightarrow> False) (effects s) = []"

definition quietEmpty :: "engine \<Rightarrow> bool" where
  "quietEmpty s \<longleftrightarrow>
     emptyRun s \<and> \<not> isCanceled s
     \<and> outcome s = (if closeListener s then Pending else Resolved)"

fun disturbs :: "event \<Rightarrow> bool" where
  "disturbs Cancel = True"
| "disturbs (ZipError e) = True"
| "disturbs ev = False"

subsection \<open>Folders before streams\<close>





section \<open>How the small operations change the state\<close>

lemma emit_fields [simp]:
  "isCanceled (emit x s) = isCanceled s"
  "zipFile (emit x s) = zipFile s"
  "cancelCallback (emit x s) = cancelCallback s"
  "extractedEntriesCount (emit x s) = extractedEntriesCount s"
  "total_entries (emit x s) = total_entries s"
  "entryName (emit x s) = entryName s"
  "isPrevented (emit x s) = isPrevented s"
  "outcome (emit x s) = outcome s"
  "stage (emit x s) = stage s"
  "errorListener (emit x s) = errorListener s"
  "closeListener (emit x s) = closeListener s"
  "entryListener (emit x s) = entryListener s"
  "tasks (emit x s) = tasks s"
  "unhandled (emit x s) = unhandled s"
  "pending (emit x s) = pending s"
  "remaining (emit x s) = remaining s"
  "effects (emit x s) = effects s @ [x]"
  by (simp_all add: emit_def)

lemma settle_fields [simp]:
  "isCanceled (settle r s) = isCanceled s"
  "zipFile (settle r s) = zipFile s"
  "cancelCallback (settle r s) = cancelCallback s"
  "extractedEntriesCount (settle r s) = extractedEntriesCount s"
  "total_entries (settle r s) = total_entries s"
  "entryName (settle r s) = entryName s"
  "isPrevented (settle r s) = isPrevented s"
  "outcome (settle r s) = (if outcome s = Pending then r else outcome s)"
  "stage (settle r s) = stage s"
  "errorListener (settle r s) = errorListener s"
  "closeListener (settle r s) = closeListener s"
  "entryListener (settle r s) = entryListener s"
  "tasks (settle r s) = tasks s"
  "unhandled (settle r s) = unhandled s"
  "pending (settle r s) = pending s"
  "remaining (settle r s) = remaining s"
  "effects (settle r s) = effects s"
  by (simp_all add: settle_def)

lemma readEntry_fields [simp]:
  "isCanceled (readEntry s) = isCanceled s"
  "zipFile (readEntry s) = zipFile s"
  "cancelCallback (readEntry s) = cancelCallback s"
  "extractedEntriesCount (readEntry s) = extractedEntriesCount s"
  "total_entries (readEntry s) = total_entries s"
  "entryName (readEntry s) = entryName s"
  "isPrevented (readEntry s) = isPrevented s"
  "outcome (readEntry s) = outcome s"
  "stage (readEntry s) = stage s"
  "errorListener (readEntry s) = errorListener s"
  "closeListener (readEntry s) = closeListener s"
  "entryListener (readEntry s) = entryListener s"
  "tasks (readEntry s) = tasks s"
  "unhandled (readEntry s) = unhandled s"
  "pending (readEntry s) = Suc (pending s)"
  "remaining (readEntry s) = remaining s"
  "effects (readEntry s) = effects s @ [ReadEntry]"
  by (simp_all add: readEntry_def emit_def)

lemma closeZip_fields [simp]:
  "isCanceled (closeZip s) = isCanceled s"
  "zipFile (closeZip s) = False"
  "cancelCallback (closeZip s) = cancelCallback s"
  "extractedEntriesCount (closeZip s) = extractedEntriesCount s"
  "total_entries (closeZip s) = total_entries s"
  "entryName (closeZip s) = entryName s"
  "isPrevented (closeZip s) = isPrevented s"
  "outcome (closeZip s) = outcome s"
  "stage (closeZip s) = stage s"
  "errorListener (closeZip s) = errorListener s"
  "closeListener (closeZip s) = closeListener s"
  "entryListener (closeZip s) = entryListener s"
  "tasks (closeZip s) = tasks s"
  "unhandled (closeZip s) = unhandled s"
  "pending (closeZip s) = pending s"
  "remaining (closeZip s) = remaining s"
  "effects (closeZip s) = (if zipFile s then effects s @ [CloseZip] else effects s)"
  by (simp_all add: closeZip_def emit_def)

lemma cancelCallbackBody_fields [simp]:
  "isCanceled (cancelCallbackBody i s) = isCanceled s"
  "zipFile (cancelCallbackBody i s) = zipFile s"
  "cancelCallback (cancelCallbackBody i s) = None"
  "extractedEntriesCount (cancelCallbackBody i s) = extractedEntriesCount s"
  "total_entries (cancelCallbackBody i s) = total_entries s"
  "entryName (cancelCallbackBody i s) = entryName s"
  "isPrevented (cancelCallbackBody i s) = isPrevented s"
  "outcome (cancelCallbackBody i s) = outcome s"
  "stage (cancelCallbackBody i s) = stage s"
  "errorListener (cancelCallbackBody i s) = errorListener s"
  "closeListener (cancelCallbackBody i s) = closeListener s"
  "entryListener (cancelCallbackBody i s) = entryListener s"
  "tasks (cancelCallbackBody i s) = tasks s"
  "unhandled (cancelCallbackBody i s) = unhandled s"
  "pending (cancelCallbackBody i s) = pending s"
  "remaining (cancelCallbackBody i s) = remaining s"
  "effects (cancelCallbackBody i s) = (if i < length (tasks s) \<and> fileStream (tasks s ! i)
       then effects s @ [Unpipe i, Destroy i Canceled] else effects s)"
  by (simp_all add: cancelCallbackBody_def Let_def)

lemma cancel_fields [simp]:
  "isCanceled (cancel s) = True"
  "zipFile (cancel s) = False"
  "cancelCallback (cancel s) = None"
  "extractedEntriesCount (cancel s) = extractedEntriesCount s"
  "total_entries (cancel s) = total_entries s"
  "entryName (cancel s) = entryName s"
  "isPrevented (cancel s) = isPrevented s"
  "outcome (cancel s) = outcome s"
  "stage (cancel s) = stage s"
  "errorListener (cancel s) = errorListener s"
  "closeListener (cancel s) = closeListener s"
  "entryListener (cancel s) = entryListener s"
  "tasks (cancel s) = tasks s"
  "unhandled (cancel s) = unhandled s"
  "pending (cancel s) = pending s"
  "remaining (cancel s) = remaining s"
  by (simp_all add: cancel_def Let_def cancelCallbackBody_def closeZip_def split: option.splits)

lemma counted_fields [simp]:
  "isCanceled (counted s) = isCanceled s"
  "zipFile (counted s) = zipFile s"
  "cancelCallback (counted s) = cancelCallback s"
  "extractedEntriesCount (counted s) = Suc (extractedEntriesCount s)"
  "total_entries (counted s) = total_entries s"
  "entryName (counted s) = entryName s"
  "isPrevented (counted s) = isPrevented s"
  "outcome (counted s) = (if outcome s = Pending \<and> Suc (extractedEntriesCount s) = total_entries s
       then Resolved else outcome s)"
  "stage (counted s) = stage s"
  "errorListener (counted s) = errorListener s"
  "closeListener (counted s) = closeListener s"
  "entryListener (counted s) = entryListener s"
  "tasks (counted s) = tasks s"
  "unhandled (counted s) = unhandled s"
  "pending (counted s) = pending s"
  "remaining (counted s) = remaining s"
  "effects (counted s) = effects s"
  by (simp_all add: counted_def Let_def)

lemma caught_fields [simp]:
  "isCanceled (caught e s) = isCanceled s"
  "zipFile (caught e s) = (if isCanceled s then zipFile s else False)"
  "cancelCallback (caught e s) = cancelCallback s"
  "extractedEntriesCount (caught e s) = extractedEntriesCount s"
  "total_entries (caught e s) = total_entries s"
  "entryName (caught e s) = entryName s"
  "isPrevented (caught e s) = isPrevented s"
  "outcome (caught e s) = (if outcome s = Pending then Rejected (if isCanceled s then Canceled else e)
       else outcome s)"
  "stage (caught e s) = stage s"
  "errorListener (caught e s) = errorListener s"
  "closeListener (caught e s) = closeListener s"
  "entryListener (caught e s) = entryListener s"
  "tasks (caught e s) = tasks s"
  "unhandled (caught e s) = unhandled s"
  "pending (caught e s) = pending s"
  "remaining (caught e s) = remaining s"
  "effects (caught e s) = (if \<not> isCanceled s \<and> zipFile s then effects s @ [CloseZip] else effects s)"
  by (simp_all add: caught_def settle_def closeZip_def emit_def)

lemma setTask_fields [simp]:
  "isCanceled (setTask i f s) = isCanceled s"
  "zipFile (setTask i f s) = zipFile s"
  "cancelCallback (setTask i f s) = cancelCallback s"
  "extractedEntriesCount (setTask i f s) = extractedEntriesCount s"
  "total_entries (setTask i f s) = total_entries s"
  "entryName (setTask i f s) = entryName s"
  "isPrevented (setTask i f s) = isPrevented s"
  "outcome (setTask i f s) = outcome s"
  "stage (setTask i f s) = stage s"
  "errorListener (setTask i f s) = errorListener s"
  "closeListener (setTask i f s) = closeListener s"
  "entryListener (setTask i f s) = entryListener s"
  "tasks (setTask i f s) = (tasks s)[i := f (tasks s ! i)]"
  "unhandled (setTask i f s) = unhandled s"
  "pending (setTask i f s) = pending s"
  "remaining (setTask i f s) = remaining s"
  "effects (setTask i f s) = effects s"
  by (simp_all add: setTask_def)

lemma newTask_fields [simp]:
  "isCanceled (newTask en n p s) = isCanceled s"
  "zipFile (newTask en n p s) = zipFile s"
  "cancelCallback (newTask en n p s) = cancelCallback s"
  "extractedEntriesCount (newTask en n p s) = extractedEntriesCount s"
  "total_entries (newTask en n p s) = total_entries s"
  "entryName (newTask en n p s) = entryName s"
  "isPrevented (newTask en n p s) = isPrevented s"
  "outcome (newTask en n p s) = outcome s"
  "stage (newTask en n p s) = stage s"
  "errorListener (newTask en n p s) = errorListener s"
  "closeListener (newTask en n p s) = closeListener s"
  "entryListener (newTask en n p s) = entryListener s"
  "tasks (newTask en n p s) = tasks s @
       [\<lparr>entryOf = en, nameOf = n, phase = p, readStream = NoStream, fileStream = False\<rparr>]"
  "unhandled (newTask en n p s) = unhandled s"
  "pending (newTask en n p s) = pending s"
  "remaining (newTask en n p s) = remaining s"
  "effects (newTask en n p s) = effects s"
  by (simp_all add: newTask_def)
declare setPhase_def [simp] finish_def [simp]

section \<open>Runs\<close>

lemma run_invariant:
  assumes "run rq s evs = Some s'" and "P s"
    and "\<And>a ev b. P a \<Longrightarrow> step rq a ev = Some b \<Longrightarrow> P b"
  shows "P s'"
  using assms(1,2)
proof (induction evs arbitrary: s)
  case Nil
  then show ?case by simp
next
  case (Cons ev evs)
  then show ?case using assms(3) by (auto split: option.splits)
qed


section \<open>Permission bits\<close>

lemma and_add_disjoint:
  fixes a x y :: int
  assumes "x AND y = 0"
  shows "(a AND x) + (a AND y) = a AND (x OR y)"
proof -
  have "(a AND x) AND (a AND y) = a AND (x AND y)"
    by (simp add: and.assoc and.left_commute)
  then have "(a AND x) AND (a AND y) = 0"
    using assms by simp
  then have "(a AND x) + (a AND y) = (a AND x) OR (a AND y)"
    by (rule disjunctive_add_eq_or)
  then show ?thesis
    by (simp add: bit.conj_disj_distrib)
qed

lemma and_masks_sum:
  "((a::int) AND 61440) + (a AND 448) + (a AND 56) + (a AND 7) = a AND 61951"
proof -
  have "(a AND 61440) + (a AND 448) = a AND 61888"
    using and_add_disjoint [of 61440 448 a] by simp
  moreover have "(a AND 61888) + (a AND 56) = a AND 61944"
    using and_add_disjoint [of 61888 56 a] by simp
  moreover have "(a AND 61944) + (a AND 7) = a AND 61951"
    using and_add_disjoint [of 61944 7 a] by simp
  ultimately show ?thesis by (simp only:)
qed

lemma shifted_low16:
  "take_bit 16 (sint (signed_drop_bit 16 (w::u32))) = uint (drop_bit 16 w)"
  by (rule bit_eqI) (auto simp: bit_simps bit_sint_iff bit_uint_iff dest: bit_imp_le_length)

lemma shifted_and:
  "sint (signed_drop_bit 16 (w::u32)) AND 61951 = uint (drop_bit 16 w AND 61951)"
proof -
  have "sint (signed_drop_bit 16 w) AND 61951
      = sint (signed_drop_bit 16 w) AND (mask 16 AND 61951)"
    by (simp add: mask_numeral)
  also have "\<dots> = take_bit 16 (sint (signed_drop_bit 16 w)) AND 61951"
    by (simp add: take_bit_eq_mask and.assoc)
  also have "\<dots> = uint (drop_bit 16 w) AND 61951"
    by (simp only: shifted_low16)
  finally show ?thesis by (simp add: uint_and)
qed

lemma shifted_zero:
  "sint (signed_drop_bit 16 (w::u32)) = 0 \<longleftrightarrow> drop_bit 16 w = 0"
proof
  assume "sint (signed_drop_bit 16 w) = 0"
  then have "take_bit 16 (sint (signed_drop_bit 16 w)) = 0" by simp
  then show "drop_bit 16 w = 0"
    by (simp only: shifted_low16) (simp add: unsigned_eq_0_iff)
next
  assume high: "drop_bit 16 w = 0"
  have "signed_drop_bit 16 w = 0"
  proof (rule bit_word_eqI)
    fix n assume "n < LENGTH(32)"
    have "\<not> bit (drop_bit 16 w) k" for k using high by simp
    then have "\<not> bit w (16 + k)" for k by (simp add: bit_simps)
    from this [of 15] this [of n] show "bit (signed_drop_bit 16 w) n = bit (0::u32) n"
      by (simp add: bit_simps)
  qed
  then show "sint (signed_drop_bit 16 w) = 0" by simp
qed

text \<open>
  C3, as stated: the mode of a file entry is the high 16 bits of the attribute word
  whenever they are not zero. It fails at the attribute word \<open>0x89ED0000\<close>, whose high half
  is \<open>0o104755\<close> (a regular file with the set-user-id bit): the mode computed is \<open>0o100755\<close>.
\<close>

theorem C3_mode_not_high_bits:
  "drop_bit 16 (0x89ED0000 :: u32) \<noteq> 0
   \<and> modeFromEntry \<lparr>fileName = ''tool'', externalFileAttributes = 0x89ED0000\<rparr>
       \<noteq> uint (drop_bit 16 (0x89ED0000 :: u32))"
  by (simp add: modeFromEntry_def)

text \<open>
  C3, amended: the mode is the high 16 bits of the attribute word restricted to the file
  type and the nine permission bits (mask \<open>0o170777 = 61951\<close>: the set-user-id,
  set-group-id and sticky bits are dropped), and \<open>0o100644 = 33188\<close> when the high 16
  bits are zero.
\<close>

theorem C3_modeFromEntry:
  "modeFromEntry en =
     (let high = drop_bit 16 (externalFileAttributes en)
      in if high = 0 then 33188 else uint (high AND 61951))"
proof (cases "drop_bit 16 (externalFileAttributes en) = 0")
  case True
  then show ?thesis
    by (simp add: modeFromEntry_def Let_def shifted_zero)
next
  case False
  then show ?thesis
    using and_masks_sum [of "sint (signed_drop_bit 16 (externalFileAttributes en))"]
    by (simp add: modeFromEntry_def Let_def shifted_zero shifted_and)
qed


section \<open>One pull, one holder\<close>

lemma count_update:
  "i < length ts \<Longrightarrow>
   length (filter P (ts[i := t])) + (if P (ts ! i) then 1 else 0)
     = length (filter P ts) + (if P t then 1 else 0)"
proof (induction ts arbitrary: i)
  case Nil
  then show ?case by simp
next
  case (Cons a ts)
  then show ?case by (cases i) auto
qed

lemma holders_update:
  "i < length ts \<Longrightarrow>
   holders (ts[i := t]) + (if holds (ts ! i) then 1 else 0)
     = holders ts + (if holds t then 1 else 0)"
  unfolding holders_def by (rule count_update)

lemma holders_append [simp]: "holders (ts @ [t]) = holders ts + (if holds t then 1 else 0)"
  by (simp add: holders_def)

lemma holders_Nil [simp]: "holders [] = 0"
  by (simp add: holders_def)

lemma openStreams_le_holders: "openStreams ts \<le> holders ts"
  unfolding openStreams_def holders_def
  by (induction ts) (auto simp: holds_def)

lemma list_all_update: "list_all P ts \<Longrightarrow> P t \<Longrightarrow> list_all P (ts[i := t])"
  by (induction ts arbitrary: i) (auto split: nat.splits)

lemma list_all_nth: "list_all P ts \<Longrightarrow> i < length ts \<Longrightarrow> P (ts ! i)"
  by (simp add: list_all_length)

lemma token_cancel: "token_inv s \<Longrightarrow> token_inv (cancel s)"
  by (simp add: token_inv_def)

lemma callback_frame:
  assumes "onEntryCallback rq u s = (s', threw)"
  shows "pending s' = pending s" and "tasks s' = tasks s" and "stage s' = stage s"
    and "remaining s' = remaining s" and "total_entries s' = total_entries s"
    and "extractedEntriesCount s' = extractedEntriesCount s" and "outcome s' = outcome s"
    and "unhandled s' = unhandled s" and "entryName s' = entryName s"
    and "entryListener s' = entryListener s"
  using assms by (auto simp: onEntryCallback_def Let_def split: if_splits)

lemma token_onEntryEvent:
  assumes "pending s + holders (tasks s) = 0" and "stage s = Running" and "\<not> isPrevented s"
    and "list_all task_ok (tasks s)"
  shows "token_inv (onEntryEvent rq en u s)"
proof -
  obtain s2 threw where cb: "onEntryCallback rq u (s\<lparr>entryName := decodeName (fileName en)\<rparr>) = (s2, threw)"
    by (cases "onEntryCallback rq u (s\<lparr>entryName := decodeName (fileName en)\<rparr>)")
  note fr = callback_frame [OF cb]
  show ?thesis
    using assms fr
    by (auto simp: onEntryEvent_def Let_def cb token_inv_def handleEntry_def extractEntry_def
        holds_def task_ok_def)
qed

lemma token_step:
  assumes "step rq s ev = Some s'" and "token_inv s"
  shows "token_inv s'"
proof (cases ev)
  case Cancel
  then show ?thesis using assms token_cancel by auto
next
  case (RimrafDone r)
  then show ?thesis using assms
    by (auto simp: token_inv_def afterRemove_def split: if_splits option.splits)
next
  case (TargetEnsured r)
  then show ?thesis using assms
    by (auto simp: token_inv_def split: if_splits option.splits)
next
  case (ZipOpened r)
  then show ?thesis using assms
    by (auto simp: token_inv_def onZipOpened_def Let_def split: if_splits sum.splits)
next
  case (ZipEntry u)
  show ?thesis
  proof (cases "entryListener s")
    case True
    have "token_inv (onEntryEvent rq (hd (remaining s)) u
            (s\<lparr>pending := pending s - 1, remaining := tl (remaining s)\<rparr>))"
      using assms ZipEntry by (intro token_onEntryEvent) (auto simp: token_inv_def split: if_splits)
    then show ?thesis using assms ZipEntry True by (auto simp: Let_def split: if_splits)
  next
    case False
    then show ?thesis using assms ZipEntry
      by (auto simp: token_inv_def Let_def split: if_splits)
  qed
next
  case (ZipError e)
  then show ?thesis using assms
    by (auto simp: token_inv_def onZipError_def Let_def split: if_splits)
next
  case ZipClose
  then show ?thesis using assms
    by (auto simp: token_inv_def onZipClose_def Let_def split: if_splits)
next
  case (FolderEnsured i r)
  then have run: "stage s = Running" and i: "i < length (tasks s)"
    and s': "onFolderEnsured i r s = Some s'"
    using assms by (auto simp: onTask_def split: if_splits)
  have ok: "task_ok (tasks s ! i)"
    using assms(2) i by (simp add: token_inv_def list_all_nth)
  show ?thesis
    using s' assms(2) run ok holders_update [OF i, of "(tasks s ! i)\<lparr>phase := Finished\<rparr>"]
      holders_update [OF i, of "(tasks s ! i)\<lparr>phase := OpeningStream\<rparr>"]
    by (auto simp: onFolderEnsured_def token_inv_def holds_def task_ok_def
        intro!: list_all_update
        split: phase.splits option.splits if_splits)
next
  case (StreamOpened i r)
  then have run: "stage s = Running" and i: "i < length (tasks s)"
    and s': "onStreamOpened rq i r s = Some s'"
    using assms by (auto simp: onTask_def split: if_splits)
  have ok: "task_ok (tasks s ! i)"
    using assms(2) i by (simp add: token_inv_def list_all_nth)
  show ?thesis
    using s' assms(2) run ok i holders_update [OF i, of "(tasks s ! i)\<lparr>phase := Finished\<rparr>"]
      holders_update [OF i, of "(tasks s ! i)\<lparr>readStream := Open, phase := ReadingLink []\<rparr>"]
      holders_update [OF i, of "(tasks s ! i)\<lparr>readStream := Open, phase := Copying, fileStream := True\<rparr>"]
    by (auto simp: onStreamOpened_def writeEntryToFile_def Let_def token_inv_def holds_def
        task_ok_def intro!: list_all_update
        split: phase.splits option.splits if_splits)
next
  case (ReadData i chunk)
  then have run: "stage s = Running" and i: "i < length (tasks s)"
    and s': "onReadData i chunk s = Some s'"
    using assms by (auto simp: onTask_def split: if_splits)
  have ok: "task_ok (tasks s ! i)"
    using assms(2) i by (simp add: token_inv_def list_all_nth)
  show ?thesis
    using s' assms(2) run ok i
      holders_update [OF i, of "(tasks s ! i)\<lparr>phase := ReadingLink l\<rparr>" for l]
    by (auto simp: onReadData_def Let_def token_inv_def holds_def
        task_ok_def intro!: list_all_update
        split: phase.splits option.splits if_splits)
next
  case (ReadEnd i)
  then have run: "stage s = Running" and i: "i < length (tasks s)"
    and s': "onReadEnd rq i s = Some s'"
    using assms by (auto simp: onTask_def split: if_splits)
  have ok: "task_ok (tasks s ! i)"
    using assms(2) i by (simp add: token_inv_def list_all_nth)
  show ?thesis
    using s' assms(2) run ok i
      holders_update [OF i, of "(tasks s ! i)\<lparr>readStream := Ended\<rparr>"]
      holders_update [OF i, of "(tasks s ! i)\<lparr>readStream := Ended, phase := Linking\<rparr>"]
    by (auto simp: onReadEnd_def Let_def token_inv_def holds_def
        task_ok_def intro!: list_all_update
        split: phase.splits option.splits if_splits)
next
  case (ReadError i e)
  then have run: "stage s = Running" and i: "i < length (tasks s)"
    and s': "onReadError i e s = Some s'"
    using assms by (auto simp: onTask_def split: if_splits)
  have ok: "task_ok (tasks s ! i)"
    using assms(2) i by (simp add: token_inv_def list_all_nth)
  show ?thesis
    using s' assms(2) run ok i
      holders_update [OF i, of "(tasks s ! i)\<lparr>readStream := Broken\<rparr>"]
      holders_update [OF i, of "(tasks s ! i)\<lparr>readStream := Broken, phase := Finished\<rparr>"]
    by (auto simp: onReadError_def Let_def token_inv_def holds_def
        task_ok_def intro!: list_all_update
        split: phase.splits option.splits if_splits)
next
  case (FileClose i)
  then have run: "stage s = Running" and i: "i < length (tasks s)"
    and s': "onFileClose i s = Some s'"
    using assms by (auto simp: onTask_def split: if_splits)
  have ok: "task_ok (tasks s ! i)"
    using assms(2) i by (simp add: token_inv_def list_all_nth)
  show ?thesis
    using s' assms(2) run ok i
      holders_update [OF i, of "(tasks s ! i)\<lparr>phase := Finished\<rparr>"]
    by (auto simp: onFileClose_def Let_def token_inv_def holds_def
        task_ok_def intro!: list_all_update
        split: phase.splits option.splits if_splits)
next
  case (FileError i e)
  then have run: "stage s = Running" and i: "i < length (tasks s)"
    and s': "onFileError i e s = Some s'"
    using assms by (auto simp: onTask_def split: if_splits)
  have ok: "task_ok (tasks s ! i)"
    using assms(2) i by (simp add: token_inv_def list_all_nth)
  show ?thesis
    using s' assms(2) run ok i
      holders_update [OF i, of "(tasks s ! i)\<lparr>phase := Finished\<rparr>"]
    by (auto simp: onFileError_def Let_def token_inv_def holds_def
        task_ok_def intro!: list_all_update
        split: phase.splits option.splits if_splits)
next
  case (SymlinkDone i r)
  then have run: "stage s = Running" and i: "i < length (tasks s)"
    and s': "onSymlinkDone i r s = Some s'"
    using assms by (auto simp: onTask_def split: if_splits)
  have ok: "task_ok (tasks s ! i)"
    using assms(2) i by (simp add: token_inv_def list_all_nth)
  show ?thesis
    using s' assms(2) run ok i
      holders_update [OF i, of "(tasks s ! i)\<lparr>phase := Finished\<rparr>"]
    by (auto simp: onSymlinkDone_def Let_def token_inv_def holds_def
        task_ok_def intro!: list_all_update
        split: phase.splits option.splits if_splits)
qed

lemma token_start: "token_inv (extract_start rq)"
  by (simp add: extract_start_def afterRemove_def fresh_def token_inv_def Let_def)

lemma token_reachable:
  "run rq (extract_start rq) evs = Some s \<Longrightarrow> token_inv s"
  by (rule run_invariant [where P = token_inv]) (auto intro: token_start token_step)


section \<open>Where pulls are issued\<close>

lemma effects_cancel: "effects (cancel s) = effects s @ cancelEffects s"
  by (simp add: cancel_def cancelEffects_def Let_def split: option.splits)

lemma pulls_simps [simp]:
  "pulls [] = 0"
  "pulls (xs @ ys) = pulls xs + pulls ys"
  "pulls (x # xs) = (if x = ReadEntry then 1 else 0) + pulls xs"
  by (simp_all add: pulls_def)

lemma pulls_cancelEffects [simp]: "pulls (cancelEffects s) = 0"
  by (simp add: cancelEffects_def split: option.splits)

lemma pulls_onEntryCallback:
  assumes "onEntryCallback rq u s = (s', threw)"
  shows "pulls (effects s') = pulls (effects s)"
    and "threw \<longleftrightarrow> throws u \<and> hasOnEntry rq"
    and "isPrevented s' \<longleftrightarrow>
      isPrevented s \<or> prevents u \<and> hasOnEntry rq"
  using assms by (auto simp: onEntryCallback_def Let_def effects_cancel split: if_splits)

lemma pulls_onEntryEvent:
  assumes "pulls (effects s) < pulls (effects (onEntryEvent rq en u s))" and "\<not> isPrevented s"
  shows "prevents u \<and> \<not> throws u"
proof -
  obtain s2 threw
    where cb: "onEntryCallback rq u (s\<lparr>entryName := decodeName (fileName en)\<rparr>) = (s2, threw)"
    by (cases "onEntryCallback rq u (s\<lparr>entryName := decodeName (fileName en)\<rparr>)")
  show ?thesis
    using assms pulls_onEntryCallback [OF cb]
    by (auto simp: onEntryEvent_def Let_def cb handleEntry_def extractEntry_def
        split: if_splits)
qed

lemma pulls_step:
  assumes "step rq s ev = Some s'" and "pulls (effects s) < pulls (effects s')"
    and "isPrevented s \<longrightarrow> pending s = 0"
  shows "pullPoint s ev"
proof (cases ev)
  case (ZipEntry u)
  then show ?thesis
    using assms pulls_onEntryEvent [of "s\<lparr>pending := pending s - 1, remaining := tl (remaining s)\<rparr>"
        rq "hd (remaining s)" u]
    by (auto simp: Let_def split: if_splits)
qed (use assms in \<open>auto simp: effects_cancel afterRemove_def onZipOpened_def onZipError_def
      onZipClose_def onTask_def onFolderEnsured_def onStreamOpened_def writeEntryToFile_def
      onReadData_def onReadEnd_def onReadError_def onFileClose_def onFileError_def
      onSymlinkDone_def Let_def
      split: if_splits option.splits sum.splits phase.splits\<close>)


lemmas sample_defs = sample_def quiet_def docs_def readme_def shortcut_def

lemmas engine_defs = extract_start_def afterRemove_def fresh_def isOverwrite_def hasOnEntry_def
  onZipOpened_def onEntryEvent_def onEntryCallback_def handleEntry_def extractEntry_def
  newTask_def decodeName_def isDirectoryName_def onTask_def onFolderEnsured_def
  onStreamOpened_def writeEntryToFile_def modeFromEntry_def isSymlinkMode_def
  symlinkToFile_def filePath_def onReadData_def onReadEnd_def onReadError_def
  onFileClose_def onFileError_def onSymlinkDone_def onZipError_def onZipClose_def
  emit_def settle_def readEntry_def closeZip_def cancelCallbackBody_def cancel_def
  counted_def caught_def setTask_def byteIn_def secondByte_def replacement_def Let_def

text \<open>
  C2: in every state the engine can reach, at most one read stream is open, and while one
  is open no pull is outstanding, so the reader cannot deliver the next entry. The engine
  asks for the next entry only when the archive has been opened, when an entry is skipped
  by \<^verbatim>\<open>preventDefault()\<close>, when the folder of a directory entry has been ensured, and when
  the read stream of a file entry signals its end.
\<close>

theorem C2_one_read_stream_at_a_time:
  assumes "run rq (extract_start rq) evs = Some s"
  shows "openStreams (tasks s) \<le> 1
     \<and> pending s + openStreams (tasks s) \<le> 1
     \<and> (\<forall>ev s'. step rq s ev = Some s' \<and> pulls (effects s) < pulls (effects s')
           \<longrightarrow> pullPoint s ev)"
proof -
  have inv: "token_inv s"
    using assms by (rule token_reachable)
  have le: "openStreams (tasks s) \<le> holders (tasks s)"
    by (rule openStreams_le_holders)
  have one: "pending s + holders (tasks s) \<le> 1"
    using inv by (simp add: token_inv_def)
  have prevented: "isPrevented s \<longrightarrow> pending s = 0"
    using inv by (simp add: token_inv_def)
  have "pullPoint s ev" if "step rq s ev = Some s'" "pulls (effects s) < pulls (effects s')"
    for ev s'
    using that prevented by (rule pulls_step)
  then show ?thesis
    using le one by auto
qed

theorem C2_sample_run:
  "\<exists>s. run sample (extract_start sample)
         [TargetEnsured None, ZipOpened (Inr [docs, readme]), ZipEntry quiet,
          FolderEnsured 0 None, ZipEntry quiet, FolderEnsured 1 None, StreamOpened 1 None]
        = Some s
      \<and> openStreams (tasks s) = 1 \<and> pending s = 0 \<and> pullPoint s (ReadEnd 1)"
proof -
  let ?evs = "[TargetEnsured None, ZipOpened (Inr [docs, readme]), ZipEntry quiet,
    FolderEnsured 0 None, ZipEntry quiet, FolderEnsured 1 None, StreamOpened 1 None]"
  obtain s where r: "run sample (extract_start sample) ?evs = Some s"
    and o: "openStreams (tasks s) = 1" and e: "step sample s (ReadEnd 1) \<noteq> None"
    and p: "pulls (effects s) < pulls (effects (the (step sample s (ReadEnd 1))))"
    by (simp add: sample_defs engine_defs openStreams_def pulls_def)
  obtain s' where s': "step sample s (ReadEnd 1) = Some s'"
    using e by blast
  have "pulls (effects s) < pulls (effects s')"
    using p s' by simp
  then have "pullPoint s (ReadEnd 1)"
    using C2_one_read_stream_at_a_time [OF r] s' by blast
  moreover have "pending s = 0"
    using C2_one_read_stream_at_a_time [OF r] o by simp
  ultimately show ?thesis
    using r o by blast
qed

section \<open>Counting entries\<close>



lemma finished_append [simp]:
  "finished (ts @ [t]) = finished ts + (if phase t = Finished then 1 else 0)"
  by (simp add: finished_def)

lemma finished_Nil [simp]: "finished [] = 0"
  by (simp add: finished_def)











section \<open>Skipped entries\<close>

lemma materializes_cancelEffects [simp]: "filter materializes (cancelEffects s) = []"
  by (simp add: cancelEffects_def split: option.splits)







section \<open>A callback that throws\<close>

text \<open>
  C10: when the user's \<^verbatim>\<open>onEntry\<close> throws, the listener of the entry is left before its
  \<^verbatim>\<open>try\<close> block: the promise of \<^verbatim>\<open>extract\<close> keeps its state, the entry is not counted,
  nothing is materialized, the next entry is not pulled, and the rejection of the
  listener's own promise is observed by nobody. Unless the callback itself called
  \<^verbatim>\<open>cancel()\<close>, the archive stays open and the only call logged is the callback's.
\<close>

theorem C10_callback_exception_escapes:
  assumes "step rq s (ZipEntry u) = Some s'" and "entryListener s" and "hasOnEntry rq"
    and "throws u"
  shows "outcome s' = outcome s
     \<and> extractedEntriesCount s' = extractedEntriesCount s
     \<and> unhandled s' = Suc (unhandled s)
     \<and> pulls (effects s') = pulls (effects s)
     \<and> pending s' = pending s - 1
     \<and> filter materializes (effects s') = filter materializes (effects s)
     \<and> (\<not> cancels u \<longrightarrow>
          zipFile s' = zipFile s
          \<and> effects s' =
              effects s @ [OnEntry (decodeName (fileName (hd (remaining s)))) (total_entries s)])"
proof -
  let ?s1 = "s\<lparr>pending := pending s - 1, remaining := tl (remaining s)\<rparr>"
  have s': "s' = onEntryEvent rq (hd (remaining s)) u ?s1"
    using assms(1,2) by (auto simp: Let_def split: if_splits)
  show ?thesis
    unfolding s' using assms(3,4)
    by (simp add: onEntryEvent_def onEntryCallback_def Let_def effects_cancel)
qed

theorem C10_sample_throw:
  "\<exists>s s'. run sample (extract_start sample) [TargetEnsured None, ZipOpened (Inr [docs])]
            = Some s
      \<and> step sample s (ZipEntry thrower) = Some s'
      \<and> outcome s = Pending \<and> outcome s' = Pending
      \<and> extractedEntriesCount s' = 0 \<and> unhandled s' = 1 \<and> pending s' = 0
      \<and> zipFile s'"
proof -
  obtain s s'
    where r: "run sample (extract_start sample) [TargetEnsured None, ZipOpened (Inr [docs])]
                = Some s"
      and st: "step sample s (ZipEntry thrower) = Some s'"
      and l: "entryListener s"
      and c: "extractedEntriesCount s = 0" "outcome s = Pending" "unhandled s = 0"
        "pending s = 1" "zipFile s"
    by (simp add: sample_defs thrower_def engine_defs)
  have cb: "hasOnEntry sample" "throws thrower" "\<not> cancels thrower"
    by (simp_all add: sample_def thrower_def hasOnEntry_def)
  from C10_callback_exception_escapes [OF st l cb(1,2)] c cb(3)
  have "outcome s' = Pending \<and> extractedEntriesCount s' = 0 \<and> unhandled s' = 1
      \<and> pending s' = 0 \<and> zipFile s'"
    by simp
  then show ?thesis
    using r st c by blast
qed

section \<open>Symbolic links\<close>

lemma symlinkToFile_iff:
  "symlinkToFile rq \<longleftrightarrow>
     platform rq = Win32
     \<and> \<not> (\<exists>ops. opts rq = Some ops \<and> symlinkAsFileOnWindows ops = Some False)"
  by (auto simp: symlinkToFile_def split: option.splits)

lemma link_read:
  assumes "stage s = Running" and "i < length (tasks s)"
    and "phase (tasks s ! i) = ReadingLink acc" and "readStream (tasks s ! i) = Open"
  shows "\<exists>s'. run rq s (map (ReadData i) chunks @ [ReadEnd i]) = Some s'
     \<and> effects s' = effects s @ [ReadEntry, Symlink (acc @ concat (map bufferToString chunks)) (filePath rq (tasks s ! i))]
     \<and> phase (tasks s' ! i) = Linking"
  using assms
proof (induction chunks arbitrary: s acc)
  case Nil
  then show ?case
    by (simp add: onTask_def onReadEnd_def Let_def)
next
  case (Cons c chunks)
  let ?s1 = "setPhase i (ReadingLink (acc @ bufferToString c)) s"
  have st: "step rq s (ReadData i c) = Some ?s1"
    using Cons.prems by (simp add: onTask_def onReadData_def)
  have "\<exists>s'. run rq ?s1 (map (ReadData i) chunks @ [ReadEnd i]) = Some s'
     \<and> effects s' = effects ?s1 @
          [ReadEntry, Symlink ((acc @ bufferToString c) @ concat (map bufferToString chunks)) (filePath rq (tasks ?s1 ! i))]
     \<and> phase (tasks s' ! i) = Linking"
    using Cons.prems by (intro Cons.IH) simp_all
  then show ?case
    using st Cons.prems(2) by (simp add: filePath_def)
qed

text \<open>
  When the read stream of a file entry has been opened, the entry is a symbolic link
  exactly when its mode masked with \<open>0o170000 = 61440\<close> is \<open>0o120000 = 40960\<close>. For a link,
  on every platform but win32, and on win32 when \<^verbatim>\<open>symlinkAsFileOnWindows\<close> is false, no
  file is created: every chunk of the stream is decoded on its own, the decoded pieces
  are concatenated and, at the end of the stream, a symbolic link to that text is created
  at the target path. In every other case a write stream is created at the target path
  with the computed mode.
\<close>

lemma symlink_policy:
  assumes "stage s = Running" and "i < length (tasks s)"
    and "phase (tasks s ! i) = OpeningStream"
  shows "\<exists>s'. step rq s (StreamOpened i None) = Some s' \<and>
     (let t = tasks s ! i;
          mode = modeFromEntry (entryOf t);
          target = Join (targetFolder rq) (nameOf t)
      in if (mode AND 61440) = 40960
            \<and> (platform rq \<noteq> Win32
                \<or> (\<exists>ops. opts rq = Some ops \<and> symlinkAsFileOnWindows ops = Some False))
         then effects s' = effects s
              \<and> (\<forall>chunks. \<exists>s''.
                     run rq s' (map (ReadData i) chunks @ [ReadEnd i]) = Some s''
                     \<and> effects s'' = effects s @ [ReadEntry, Symlink (concat (map bufferToString chunks)) target])
         else effects s' = effects s @ [CreateWriteStream i target mode]
              \<and> phase (tasks s' ! i) = Copying)"
proof -
  let ?t = "tasks s ! i"
  let ?s' = "writeEntryToFile rq i (setTask i (\<lambda>t. t\<lparr>readStream := Open\<rparr>) s)"
  have st: "step rq s (StreamOpened i None) = Some ?s'"
    using assms by (simp add: onTask_def onStreamOpened_def)
  show ?thesis
  proof (cases "isSymlinkMode (modeFromEntry (entryOf ?t)) \<and> \<not> symlinkToFile rq")
    case True
    have s': "?s' = setPhase i (ReadingLink [])
        ((setTask i (\<lambda>t. t\<lparr>readStream := Open\<rparr>) s)\<lparr>cancelCallback := Some i\<rparr>)"
      using True assms(2) by (simp add: writeEntryToFile_def Let_def)
    have "\<exists>s''. run rq ?s' (map (ReadData i) chunks @ [ReadEnd i]) = Some s''
        \<and> effects s'' = effects s @
             [ReadEntry, Symlink (concat (map bufferToString chunks)) (Join (targetFolder rq) (nameOf ?t))]"
      for chunks
    proof -
      have "\<exists>s''. run rq ?s' (map (ReadData i) chunks @ [ReadEnd i]) = Some s''
          \<and> effects s'' = effects ?s' @
               [ReadEntry, Symlink ([] @ concat (map bufferToString chunks)) (filePath rq (tasks ?s' ! i))]
          \<and> phase (tasks s'' ! i) = Linking"
        using assms(1,2) unfolding s' by (intro link_read) simp_all
      then obtain s'' where "run rq ?s' (map (ReadData i) chunks @ [ReadEnd i]) = Some s''"
        and "effects s'' = effects ?s' @
               [ReadEntry, Symlink ([] @ concat (map bufferToString chunks)) (filePath rq (tasks ?s' ! i))]"
        by blast
      then show ?thesis
        using assms(2) unfolding s' by (simp add: filePath_def)
    qed
    moreover have "effects ?s' = effects s"
      unfolding s' by simp
    ultimately show ?thesis
      using True st by (simp add: isSymlinkMode_def symlinkToFile_iff Let_def)
  next
    case False
    then have "effects ?s' = effects s @
        [CreateWriteStream i (Join (targetFolder rq) (nameOf ?t)) (modeFromEntry (entryOf ?t))]
      \<and> phase (tasks ?s' ! i) = Copying"
      using assms(2) by (auto simp: writeEntryToFile_def Let_def filePath_def)
    then show ?thesis
      using False st by (auto simp: isSymlinkMode_def symlinkToFile_iff Let_def)
  qed
qed

lemma bufferToString_ascii:
  "list_all (byteIn 0 0x7F) bs \<Longrightarrow> bufferToString bs = bs"
  by (induction bs) simp_all

text \<open>
  C9: the mode test and the policy are as the claim says (lemma \<open>symlink_policy\<close>), and
  a stream that arrives in one chunk is linked as its text. The text of the link is not
  the text of the whole stream when a character is cut by a chunk boundary. The link
  entry \<^verbatim>\<open>docs/l\<close> below has the two bytes \<open>C3 A9\<close> as its content, the UTF-8 form of
  one character, and the stream delivers them in two chunks: the engine creates a link
  to twice U+FFFD, while the text of the stream is that one character.
\<close>

theorem C9_link_text_cut_at_chunk_boundary:
  "\<exists>s s'. run sample (extract_start sample)
            [TargetEnsured None, ZipOpened (Inr [shortcut]), ZipEntry quiet,
             FolderEnsured 0 None, StreamOpened 0 None] = Some s
      \<and> phase (tasks s ! 0) = ReadingLink []
      \<and> run sample s [ReadData 0 [CHR 0xC3], ReadData 0 [CHR 0xA9], ReadEnd 0] = Some s'
      \<and> last (effects s') =
          Symlink [CHR 0xEF, CHR 0xBF, CHR 0xBD, CHR 0xEF, CHR 0xBF, CHR 0xBD]
            (Join ''out'' ''docs/l'')
      \<and> bufferToString ([CHR 0xC3] @ [CHR 0xA9]) = [CHR 0xC3, CHR 0xA9]
      \<and> [CHR 0xEF, CHR 0xBF, CHR 0xBD, CHR 0xEF, CHR 0xBF, CHR 0xBD]
          \<noteq> bufferToString ([CHR 0xC3] @ [CHR 0xA9])"
  by (simp add: sample_defs engine_defs)


section \<open>Cancellation\<close>

lemma callback_cancel:
  assumes "onEntryCallback rq u s = (s', threw)"
  shows "isCanceled s \<longrightarrow> isCanceled s'"
    and "cancelCallback s' = cancelCallback s \<or> cancels u \<and> cancelCallback s' = None"
  using assms by (auto simp: onEntryCallback_def Let_def split: if_splits)

lemma masked_onEntryEvent:
  assumes "masked s"
  shows "masked (onEntryEvent rq en u s)"
proof -
  obtain s2 threw
    where cb: "onEntryCallback rq u (s\<lparr>entryName := decodeName (fileName en)\<rparr>) = (s2, threw)"
    by (cases "onEntryCallback rq u (s\<lparr>entryName := decodeName (fileName en)\<rparr>)")
  show ?thesis
    using assms callback_frame [OF cb] callback_cancel [OF cb]
    by (auto simp: onEntryEvent_def Let_def cb masked_def handleEntry_def extractEntry_def)
qed

lemma slot_onEntryEvent:
  "cancelCallback (onEntryEvent rq en u s) = cancelCallback s
   \<or> cancels u \<and> cancelCallback (onEntryEvent rq en u s) = None"
proof -
  obtain s2 threw
    where cb: "onEntryCallback rq u (s\<lparr>entryName := decodeName (fileName en)\<rparr>) = (s2, threw)"
    by (cases "onEntryCallback rq u (s\<lparr>entryName := decodeName (fileName en)\<rparr>)")
  show ?thesis
    using callback_cancel(2) [OF cb]
    by (auto simp: onEntryEvent_def Let_def cb handleEntry_def extractEntry_def)
qed

lemma masked_step:
  assumes "step rq s ev = Some s'" and "masked s"
  shows "masked s'"
proof (cases ev)
  case (ZipEntry u)
  have "masked (s\<lparr>pending := pending s - 1, remaining := tl (remaining s)\<rparr>)"
    using assms(2) by (simp add: masked_def)
  then show ?thesis
    using assms ZipEntry masked_onEntryEvent by (auto simp: Let_def split: if_splits)
next
  case (FolderEnsured i r)
  then show ?thesis using assms
    by (auto simp: masked_def onTask_def onFolderEnsured_def
        split: if_splits option.splits phase.splits)
next
  case (StreamOpened i r)
  then show ?thesis using assms
    by (auto simp: masked_def onTask_def onStreamOpened_def writeEntryToFile_def Let_def
        split: if_splits option.splits)
next
  case (ReadData i chunk)
  then show ?thesis using assms
    by (auto simp: masked_def onTask_def onReadData_def split: if_splits phase.splits)
next
  case (ReadEnd i)
  then show ?thesis using assms
    by (auto simp: masked_def onTask_def onReadEnd_def Let_def split: if_splits phase.splits)
next
  case (ReadError i e)
  then show ?thesis using assms
    by (auto simp: masked_def onTask_def onReadError_def Let_def split: if_splits phase.splits)
next
  case (FileClose i)
  then show ?thesis using assms
    by (auto simp: masked_def onTask_def onFileClose_def split: if_splits)
next
  case (FileError i e)
  then show ?thesis using assms
    by (auto simp: masked_def onTask_def onFileError_def split: if_splits)
next
  case (SymlinkDone i r)
  then show ?thesis using assms
    by (auto simp: masked_def onTask_def onSymlinkDone_def split: if_splits option.splits)
qed (use assms in \<open>auto simp: masked_def onZipError_def onZipClose_def Let_def
      split: if_splits option.splits sum.splits\<close>)

text \<open>
  C1, as stated: a \<^verbatim>\<open>cancel()\<close> before the operation settles makes it fail with Canceled,
  never succeed and never fail with another error. Two runs say otherwise. In the first
  the archive holds one directory entry and \<^verbatim>\<open>cancel()\<close> is called while its folder is being
  ensured: the folder is ensured, the entry is counted, and the promise is resolved.
  In the second \<^verbatim>\<open>cancel()\<close> is called while the archive is being opened and the open then
  fails: the promise is rejected with the error of the open.
\<close>

theorem C1_cancel_then_success_or_other_error:
  "(\<exists>s s'. run sample (extract_start sample)
              [TargetEnsured None, ZipOpened (Inr [docs]), ZipEntry quiet] = Some s
        \<and> outcome s = Pending
        \<and> run sample s [Cancel, FolderEnsured 0 None] = Some s'
        \<and> isCanceled s' \<and> outcome s' = Resolved)
   \<and> (\<exists>s s'. run sample (extract_start sample) [TargetEnsured None] = Some s
        \<and> outcome s = Pending
        \<and> run sample s [Cancel, ZipOpened (Inl (Failure 7))] = Some s'
        \<and> isCanceled s' \<and> outcome s' = Rejected (Failure 7))"
  by (simp add: sample_defs engine_defs)

lemma error_path_step:
  assumes "step rq s ev = Some s'" and "errorPath s ev"
    and "stage s = Running" and "isCanceled s" and "outcome s = Pending"
  shows "outcome s' = Rejected Canceled"
proof (cases ev)
  case (ZipError e)
  then show ?thesis using assms by (auto simp: onZipError_def Let_def split: if_splits)
next
  case ZipClose
  then show ?thesis using assms by (auto simp: onZipClose_def Let_def split: if_splits)
next
  case (FolderEnsured i r)
  then show ?thesis using assms
    by (auto simp: onTask_def onFolderEnsured_def split: if_splits phase.splits)
next
  case (StreamOpened i r)
  then show ?thesis using assms
    by (auto simp: onTask_def onStreamOpened_def split: if_splits)
next
  case (ReadError i e)
  then show ?thesis using assms
    by (auto simp: onTask_def onReadError_def Let_def split: if_splits phase.splits)
next
  case (FileError i e)
  then show ?thesis using assms
    by (auto simp: onTask_def onFileError_def split: if_splits)
next
  case (SymlinkDone i r)
  then show ?thesis using assms
    by (auto simp: onTask_def onSymlinkDone_def split: if_splits)
qed (use assms in simp_all)

text \<open>
  C1, amended: once the promise of \<^verbatim>\<open>extract\<close> exists (the archive has been opened), is
  still pending, and the cancellation flag is set, every error path rejects it with
  Canceled, whatever the underlying error is: the error event of the reader, its close
  event, and every failure that reaches the \<^verbatim>\<open>catch\<close> of the entry listener. From such a
  state no run ends rejected with another error.
\<close>

theorem C1_cancel_masks_errors:
  assumes "stage s = Running" and "isCanceled s" and "outcome s = Pending"
  shows "(\<forall>ev s'. step rq s ev = Some s' \<and> errorPath s ev
            \<longrightarrow> outcome s' = Rejected Canceled)
     \<and> (\<forall>evs s' e. run rq s evs = Some s' \<and> outcome s' = Rejected e \<longrightarrow> e = Canceled)"
proof -
  have paths: "outcome s' = Rejected Canceled"
    if "step rq s ev = Some s'" "errorPath s ev" for ev s'
    using that assms by (rule error_path_step)
  have m: "masked s"
    using assms by (simp add: masked_def)
  have runs: "e = Canceled"
    if r: "run rq s evs = Some s'" and o: "outcome s' = Rejected e" for evs s' e
  proof -
    from r m have "masked s'"
      by (rule run_invariant) (rule masked_step)
    then show ?thesis
      using o by (simp add: masked_def)
  qed
  show ?thesis
    using paths runs by blast
qed

theorem C1_sample_cancel_during_copy:
  "\<exists>s s1 s2 s3.
      run sample (extract_start sample)
        [TargetEnsured None, ZipOpened (Inr [readme]), ZipEntry quiet,
         FolderEnsured 0 None, StreamOpened 0 None, Cancel] = Some s
      \<and> outcome s = Pending
      \<and> step sample s (FileError 0 (Failure 5)) = Some s1 \<and> outcome s1 = Rejected Canceled
      \<and> step sample s (ZipError (Failure 9)) = Some s2 \<and> outcome s2 = Rejected Canceled
      \<and> step sample s ZipClose = Some s3 \<and> outcome s3 = Rejected Canceled"
proof -
  obtain s s1 s2 s3
    where r: "run sample (extract_start sample)
                [TargetEnsured None, ZipOpened (Inr [readme]), ZipEntry quiet,
                 FolderEnsured 0 None, StreamOpened 0 None, Cancel] = Some s"
      and h: "stage s = Running" "isCanceled s" "outcome s = Pending"
      and st: "step sample s (FileError 0 (Failure 5)) = Some s1"
        "step sample s (ZipError (Failure 9)) = Some s2"
        "step sample s ZipClose = Some s3"
      and e: "errorPath s (FileError 0 (Failure 5))"
    by (simp add: sample_defs engine_defs)
  note c1 = C1_cancel_masks_errors [OF h, of sample]
  have "outcome s1 = Rejected Canceled"
    using c1 st(1) e by blast
  moreover have "outcome s2 = Rejected Canceled"
    using c1 st(2) by (meson errorPath.simps(1))
  moreover have "outcome s3 = Rejected Canceled"
    using c1 st(3) by (meson errorPath.simps(2))
  ultimately show ?thesis
    using r h st by blast
qed

text \<open>
  C4, as stated: the registered callback is cleared when the write it guards completes
  normally. It is not: after an archive with one regular file has been extracted to the
  end, the promise is resolved and the callback of that write is still registered.
\<close>

theorem C4_callback_survives_the_write:
  "\<exists>s. run sample (extract_start sample)
          [TargetEnsured None, ZipOpened (Inr [readme]), ZipEntry quiet,
           FolderEnsured 0 None, StreamOpened 0 None, ReadEnd 0, FileClose 0] = Some s
      \<and> outcome s = Resolved \<and> phase (tasks s ! 0) = Finished
      \<and> cancelCallback s = Some 0"
  by (simp add: sample_defs engine_defs)

text \<open>
  C4, amended: the engine has one slot for the cancel callback, so at most one is
  registered at a time. \<^verbatim>\<open>cancel()\<close> invokes the registered callback, which unpipes and
  destroys the file stream of its entry with the Canceled error, and leaves the slot
  empty. No other event empties the slot: it changes only when \<^verbatim>\<open>cancel()\<close> runs (called
  by the caller or from the \<^verbatim>\<open>onEntry\<close> callback), or when the read stream of a file entry
  has been opened and the callback of that entry replaces the one registered.
\<close>

theorem C4_cancel_callback_slot:
  "cancelCallback (cancel s) = None
   \<and> (cancelCallback s = Some i \<and> i < length (tasks s) \<and> fileStream (tasks s ! i) \<longrightarrow>
        effects (cancel s) =
          effects s @ [Unpipe i, Destroy i Canceled] @ (if zipFile s then [CloseZip] else []))
   \<and> (step rq s ev = Some s' \<longrightarrow>
        cancelCallback s' = cancelCallback s
        \<or> cancelCallback s' = None \<and> (ev = Cancel \<or> (\<exists>u. ev = ZipEntry u \<and> cancels u))
        \<or> (\<exists>j. ev = StreamOpened j None \<and> cancelCallback s' = Some j))"
proof -
  have slot: "cancelCallback s' = cancelCallback s
        \<or> cancelCallback s' = None \<and> (ev = Cancel \<or> (\<exists>u. ev = ZipEntry u \<and> cancels u))
        \<or> (\<exists>j. ev = StreamOpened j None \<and> cancelCallback s' = Some j)"
    if st: "step rq s ev = Some s'"
  proof (cases ev)
    case (ZipEntry u)
    let ?s1 = "s\<lparr>pending := pending s - 1, remaining := tl (remaining s)\<rparr>"
    have "s' = onEntryEvent rq (hd (remaining s)) u ?s1 \<or> s' = ?s1"
      using st ZipEntry by (auto simp: Let_def split: if_splits)
    then show ?thesis
      using slot_onEntryEvent [of rq "hd (remaining s)" u ?s1] ZipEntry by auto
  qed (use st in \<open>auto simp: afterRemove_def onZipOpened_def onZipError_def onZipClose_def
        onTask_def onFolderEnsured_def onStreamOpened_def writeEntryToFile_def
        onReadData_def onReadEnd_def onReadError_def onFileClose_def onFileError_def
        onSymlinkDone_def Let_def
        split: if_splits option.splits sum.splits phase.splits\<close>)
  show ?thesis
    using slot by (simp add: effects_cancel cancelEffects_def)
qed

theorem C4_sample_cancel_during_copy:
  "\<exists>s. run sample (extract_start sample)
          [TargetEnsured None, ZipOpened (Inr [readme]), ZipEntry quiet,
           FolderEnsured 0 None, StreamOpened 0 None] = Some s
      \<and> cancelCallback s = Some 0
      \<and> cancelCallback (cancel s) = None
      \<and> effects (cancel s) = effects s @ [Unpipe 0, Destroy 0 Canceled, CloseZip]
      \<and> step sample s (FileClose 0) \<noteq> None
      \<and> cancelCallback (the (step sample s (FileClose 0))) = Some 0"
proof -
  obtain s s'
    where r: "run sample (extract_start sample)
                [TargetEnsured None, ZipOpened (Inr [readme]), ZipEntry quiet,
                 FolderEnsured 0 None, StreamOpened 0 None] = Some s"
      and h: "cancelCallback s = Some 0" "0 < length (tasks s)" "fileStream (tasks s ! 0)"
        "zipFile s"
      and st: "step sample s (FileClose 0) = Some s'"
    by (simp add: sample_defs engine_defs)
  from C4_cancel_callback_slot [of s 0 sample "FileClose 0" s'] h st
  have "cancelCallback (cancel s) = None
      \<and> effects (cancel s) = effects s @ [Unpipe 0, Destroy 0 Canceled, CloseZip]
      \<and> cancelCallback s' = Some 0"
    by simp
  then show ?thesis
    using r h st by auto
qed


section \<open>Opening the archive\<close>

lemma stage_onEntryEvent [simp]: "stage (onEntryEvent rq en u s) = stage s"
proof -
  obtain s2 threw
    where cb: "onEntryCallback rq u (s\<lparr>entryName := decodeName (fileName en)\<rparr>) = (s2, threw)"
    by (cases "onEntryCallback rq u (s\<lparr>entryName := decodeName (fileName en)\<rparr>)")
  show ?thesis
    using callback_frame(3) [OF cb]
    by (simp add: onEntryEvent_def Let_def cb handleEntry_def extractEntry_def)
qed

lemma stage_step:
  assumes "step rq s ev = Some s'" and "stage s = Running \<or> stage s = Stopped"
  shows "stage s' = stage s"
  using assms
  by (cases ev)
    (auto simp: onTask_def onFolderEnsured_def onStreamOpened_def writeEntryToFile_def
      onReadData_def onReadEnd_def onReadError_def onFileClose_def onFileError_def
      onSymlinkDone_def onZipError_def onZipClose_def Let_def
      split: if_splits option.splits phase.splits)

lemma before_open_step:
  assumes "step rq s ev = Some s'" and "before_open s"
  shows "before_open s'"
proof (cases "stage s = Running \<or> stage s = Stopped")
  case True
  then show ?thesis
    using stage_step [OF assms(1)] by (auto simp: before_open_def)
next
  case False
  then have idle: "idle s"
    using assms(2) by (cases "stage s") (auto simp: before_open_def)
  show ?thesis
  proof (cases ev)
    case Cancel
    then show ?thesis using assms(1) idle
      by (auto simp: before_open_def idle_def effects_cancel cancelEffects_def)
  next
    case (RimrafDone r)
    then show ?thesis using assms(1) idle
      by (auto simp: before_open_def idle_def afterRemove_def split: if_splits option.splits)
  next
    case (TargetEnsured r)
    then show ?thesis using assms(1) idle
      by (auto simp: before_open_def idle_def split: if_splits option.splits)
  next
    case (ZipOpened r)
    then show ?thesis using assms(1)
      by (auto simp: before_open_def onZipOpened_def Let_def split: if_splits sum.splits)
  qed (use assms(1) False in \<open>auto simp: onTask_def split: if_splits\<close>)
qed

lemma before_open_start: "before_open (extract_start rq)"
  by (simp add: before_open_def idle_def extract_start_def afterRemove_def fresh_def Let_def)

lemma idle_while_opening:
  assumes "run rq (extract_start rq) evs = Some s" and "stage s = Opening"
  shows "idle s"
proof -
  have "before_open s"
    using assms(1) before_open_start by (rule run_invariant) (rule before_open_step)
  then show ?thesis
    using assms(2) by (simp add: before_open_def)
qed

lemma closedOff_step:
  assumes "step rq s ev = Some s'" and "closedOff log s"
  shows "closedOff log s'"
    and "outcome s = Rejected Canceled \<or> ev = ZipClose \<or> (\<exists>e. ev = ZipError e)
          \<longrightarrow> outcome s' = Rejected Canceled"
  using assms
  by (cases ev; auto simp: closedOff_def onTask_def onZipError_def onZipClose_def Let_def
      effects_cancel cancelEffects_def split: if_splits)+

lemma closedOff_run:
  assumes "run rq s evs = Some s'" and "closedOff log s"
  shows "closedOff log s'
     \<and> (outcome s = Rejected Canceled \<or> ZipClose \<in> set evs \<or> (\<exists>e. ZipError e \<in> set evs)
          \<longrightarrow> outcome s' = Rejected Canceled)"
  using assms
proof (induction evs arbitrary: s)
  case Nil
  then show ?case by simp
next
  case (Cons ev evs)
  then obtain s1 where st: "step rq s ev = Some s1" and r: "run rq s1 evs = Some s'"
    by (auto split: option.splits)
  note one = closedOff_step [OF st Cons.prems(2)]
  from Cons.IH [OF r one(1)] one(2) show ?case
    by auto
qed

text \<open>
  C5: when the open of the archive returns with the cancellation flag set, the handle
  just stored is closed at once (the one pull of line 115 has been issued before the
  flag is looked at), no entry listener is registered, and from then on the engine does
  nothing more: whatever the reader emits, no entry is handled, the promise is never
  resolved and never rejected with another error, and the close signal or the error
  signal of the reader rejects it with Canceled.
\<close>

theorem C5_cancel_during_open:
  assumes "run rq (extract_start rq) evs0 = Some s" and "stage s = Opening"
    and "isCanceled s"
    and "step rq s (ZipOpened (Inr es)) = Some s1" and "run rq s1 evs = Some s2"
  shows "effects s1 = effects s @ [ReadEntry, CloseZip]
     \<and> \<not> zipFile s1 \<and> \<not> entryListener s1 \<and> outcome s1 = Pending
     \<and> effects s2 = effects s1 \<and> tasks s2 = []
     \<and> (outcome s2 = Pending \<or> outcome s2 = Rejected Canceled)
     \<and> (ZipClose \<in> set evs \<or> (\<exists>e. ZipError e \<in> set evs)
          \<longrightarrow> outcome s2 = Rejected Canceled)"
proof -
  have idle: "idle s"
    using assms(1,2) by (rule idle_while_opening)
  have s1: "s1 = onZipOpened es s"
    using assms(2,4) by simp
  have first: "effects s1 = effects s @ [ReadEntry, CloseZip]" "\<not> zipFile s1"
    "\<not> entryListener s1" "outcome s1 = Pending"
    using idle assms(3) unfolding s1 by (simp_all add: onZipOpened_def Let_def idle_def)
  have "closedOff (effects s1) s1"
    using idle assms(3) unfolding s1 by (simp add: onZipOpened_def Let_def idle_def closedOff_def)
  from closedOff_run [OF assms(5) this] first show ?thesis
    by (simp add: closedOff_def)
qed

theorem C5_sample_cancel_while_opening:
  "\<exists>s s1 s2. run sample (extract_start sample) [TargetEnsured None, Cancel] = Some s
      \<and> step sample s (ZipOpened (Inr [docs, readme])) = Some s1
      \<and> run sample s1 [ZipEntry quiet, ZipClose] = Some s2
      \<and> effects s2 = effects s @ [ReadEntry, CloseZip]
      \<and> outcome s2 = Rejected Canceled"
proof -
  obtain s s1 s2
    where r: "run sample (extract_start sample) [TargetEnsured None, Cancel] = Some s"
      and h: "stage s = Opening" "isCanceled s"
      and st: "step sample s (ZipOpened (Inr [docs, readme])) = Some s1"
      and r2: "run sample s1 [ZipEntry quiet, ZipClose] = Some s2"
    by (simp add: sample_defs engine_defs)
  from C5_cancel_during_open [OF r h st r2]
  have "effects s2 = effects s @ [ReadEntry, CloseZip] \<and> outcome s2 = Rejected Canceled"
    by simp
  then show ?thesis
    using r st r2 by blast
qed

section \<open>An archive without entries\<close>

lemma emptyRun_step:
  assumes "step rq s ev = Some s'" and "emptyRun s"
  shows "emptyRun s'"
  using assms
  by (cases ev; auto simp: emptyRun_def onTask_def onZipError_def onZipClose_def Let_def
      effects_cancel cancelEffects_def split: if_splits option.splits)

lemma quietEmpty_step:
  assumes "step rq s ev = Some s'" and "quietEmpty s" and "\<not> disturbs ev"
  shows "quietEmpty s'" and "closeListener s' \<longleftrightarrow> closeListener s \<and> ev \<noteq> ZipClose"
  using assms
  by (cases ev; auto simp: quietEmpty_def emptyRun_def onTask_def onZipClose_def Let_def
      split: if_splits)+

lemma quietEmpty_run:
  assumes "run rq s evs = Some s'" and "quietEmpty s" and "list_all (\<lambda>ev. \<not> disturbs ev) evs"
  shows "quietEmpty s' \<and> (closeListener s' \<longleftrightarrow> closeListener s \<and> ZipClose \<notin> set evs)"
  using assms
proof (induction evs arbitrary: s)
  case Nil
  then show ?case by simp
next
  case (Cons ev evs)
  then obtain s1 where st: "step rq s ev = Some s1" and r: "run rq s1 evs = Some s'"
    by (auto split: option.splits)
  have q: "\<not> disturbs ev" "list_all (\<lambda>ev. \<not> disturbs ev) evs"
    using Cons.prems(3) by simp_all
  note one = quietEmpty_step [OF st Cons.prems(2) q(1)]
  from Cons.IH [OF r one(1) q(2)] one(2) show ?case
    by auto
qed

text \<open>
  C6: for an archive with no entry, opened while nobody has cancelled, the close signal
  of the reader resolves the promise: as long as nobody cancels and the reader reports
  no error, the promise is pending before the close signal and resolved after it. The
  \<^verbatim>\<open>onEntry\<close> callback is never called, whatever happens.
\<close>

theorem C6_empty_archive_resolves_on_close:
  assumes "run rq (extract_start rq) evs0 = Some s" and "stage s = Opening"
    and "\<not> isCanceled s" and "step rq s (ZipOpened (Inr [])) = Some s1"
  shows "(\<exists>s2. step rq s1 ZipClose = Some s2 \<and> outcome s2 = Resolved)
     \<and> (\<forall>evs s2. run rq s1 evs = Some s2 \<longrightarrow>
           filter (\<lambda>x. case x of OnEntry n k \<Rightarrow> True | _ \<Rightarrow> False) (effects s2) = []
           \<and> (list_all (\<lambda>ev. \<not> disturbs ev) evs \<longrightarrow>
                outcome s2 = (if ZipClose \<in> set evs then Resolved else Pending)))"
proof -
  have idle: "idle s"
    using assms(1,2) by (rule idle_while_opening)
  have s1: "s1 = onZipOpened [] s"
    using assms(2,4) by simp
  have q: "quietEmpty s1" and l: "closeListener s1" and run: "stage s1 = Running"
    using idle assms(3) unfolding s1
    by (simp_all add: onZipOpened_def Let_def idle_def quietEmpty_def emptyRun_def)
  have e: "emptyRun s1"
    using q by (simp add: quietEmpty_def)
  have close: "\<exists>s2. step rq s1 ZipClose = Some s2 \<and> outcome s2 = Resolved"
    using q l run by (simp add: quietEmpty_def emptyRun_def onZipClose_def)
  have never: "filter (\<lambda>x. case x of OnEntry n k \<Rightarrow> True | _ \<Rightarrow> False) (effects s2) = []"
    if "run rq s1 evs = Some s2" for evs s2
  proof -
    have "emptyRun s2"
      using that e by (rule run_invariant) (rule emptyRun_step)
    then show ?thesis by (simp add: emptyRun_def)
  qed
  have settled: "outcome s2 = (if ZipClose \<in> set evs then Resolved else Pending)"
    if "run rq s1 evs = Some s2" "list_all (\<lambda>ev. \<not> disturbs ev) evs" for evs s2
    using quietEmpty_run [OF that(1) q that(2)] l by (auto simp: quietEmpty_def)
  show ?thesis
    using close never settled by blast
qed

theorem C6_sample_empty_archive:
  "\<exists>s s1 s2. run sample (extract_start sample) [TargetEnsured None] = Some s
      \<and> step sample s (ZipOpened (Inr [])) = Some s1
      \<and> run sample s1 [ZipClose] = Some s2
      \<and> outcome s1 = Pending \<and> outcome s2 = Resolved
      \<and> filter (\<lambda>x. case x of OnEntry n k \<Rightarrow> True | _ \<Rightarrow> False) (effects s2) = []"
proof -
  obtain s s1 s2
    where r: "run sample (extract_start sample) [TargetEnsured None] = Some s"
      and h: "stage s = Opening" "\<not> isCanceled s"
      and st: "step sample s (ZipOpened (Inr [])) = Some s1"
      and r2: "run sample s1 [ZipClose] = Some s2" and r0: "run sample s1 [] = Some s1"
    by (simp add: sample_defs engine_defs)
  have c6: "filter (\<lambda>x. case x of OnEntry n k \<Rightarrow> True | _ \<Rightarrow> False) (effects s') = []
      \<and> (list_all (\<lambda>ev. \<not> disturbs ev) evs \<longrightarrow>
           outcome s' = (if ZipClose \<in> set evs then Resolved else Pending))"
    if "run sample s1 evs = Some s'" for evs s'
    using C6_empty_archive_resolves_on_close [OF r h st] that by blast
  from c6 [OF r2] have "outcome s2 = Resolved
      \<and> filter (\<lambda>x. case x of OnEntry n k \<Rightarrow> True | _ \<Rightarrow> False) (effects s2) = []"
    by simp
  moreover from c6 [OF r0] have "outcome s1 = Pending"
    by simp
  ultimately show ?thesis
    using r st r2 by blast
qed


section \<open>Folders before streams\<close>

lemma cancelEffects_members [simp]:
  "OpenReadStream j \<notin> set (cancelEffects s)"
  "EnsureFolder p \<notin> set (cancelEffects s)"
  by (simp_all add: cancelEffects_def split: option.splits)































end
